theory Spec2Isabelle
  imports Complex_Main "HOL-Library.Word" "HOL-Library.Finite_Map"
begin

unbundle bit_operations_syntax

section \<open>jack-stdin-to-midi.c: nodes, the heap and the queue\<close>

text \<open>
  Pointers to nodes are addresses; \<open>None\<close> is \<open>NULL\<close>. The heap holds the nodes that
  \<open>malloc\<close> has handed out and \<open>free\<close> has not taken back; it is finite. The flexible
  array member \<open>message[]\<close> is a function from the index to the byte, of which the first
  \<open>length\<close> cells belong to the node. The fields \<open>next\<close> and \<open>length\<close> carry the suffix
  \<open>_n\<close> because the plain names are taken.
\<close>

type_synonym addr = nat
type_synonym ptr = "addr option"
type_synonym byte = "8 word"

record Node =
  next_n :: ptr
  length_n :: nat
  message :: "nat \<Rightarrow> byte"

type_synonym heap = "(addr, Node) fmap"

text \<open>
  \<open>State\<close> of jack-stdin-to-midi.c. \<open>client\<close> is never read by the code modelled here and
  is left out; \<open>port\<close> is an opaque handle (\<open>None\<close> until the port is registered);
  \<open>heap\<close> is the memory the three node pointers point into.
\<close>

record State =
  port :: "nat option"
  malloc_head :: ptr
  head :: ptr
  tail :: ptr
  heap :: heap

text \<open>
  What can stop the program: \<open>abort()\<close> after a failed \<open>malloc\<close>, a failed \<open>assert\<close>
  (builds without \<open>NDEBUG\<close>), and the dereference or \<open>free\<close> of a pointer that is
  \<open>NULL\<close> or not allocated (undefined behaviour in C).
\<close>

datatype error = Abort | AssertFail | BadPointer

text \<open>
  The result of one \<open>malloc\<close> call: \<open>None\<close> for \<open>NULL\<close>, otherwise the address of the
  block and its indeterminate initial contents.
\<close>

type_synonym malloc_result = "(addr \<times> (nat \<Rightarrow> byte)) option"

definition payload :: "Node \<Rightarrow> byte list" where
  "payload n = map (message n) [0..<length_n n]"

definition node_new :: "heap \<Rightarrow> malloc_result \<Rightarrow> nat \<Rightarrow> (nat \<Rightarrow> byte) option \<Rightarrow> error + (addr \<times> heap)" where
  "node_new h m len msg =
     (case m of
        None \<Rightarrow> Inl Abort
      | Some (node, junk) \<Rightarrow>
          Inr (node, fmupd node
            \<lparr>next_n = None, length_n = len,
             message = (case msg of
                          None \<Rightarrow> junk
                        | Some src \<Rightarrow> (\<lambda>i. if i < len then src i else junk i))\<rparr> h))"

definition node_blank :: "heap \<Rightarrow> malloc_result \<Rightarrow> error + (addr \<times> heap)" where
  "node_blank h m = node_new h m 0 None"

text \<open>
  \<open>push_back\<close>. \<open>ndebug\<close> says whether the build defines \<open>NDEBUG\<close> (the Makefile's
  default), which removes the two assertions.
\<close>

definition assert_next_null :: "heap \<Rightarrow> addr \<Rightarrow> error option" where
  "assert_next_null h node =
     (case fmlookup h node of
        None \<Rightarrow> Some BadPointer
      | Some n \<Rightarrow> if next_n n = None then None else Some AssertFail)"

definition push_back :: "bool \<Rightarrow> State \<Rightarrow> addr \<Rightarrow> error + State" where
  "push_back ndebug s node =
     (case (if ndebug then None else assert_next_null (heap s) node) of
        Some e \<Rightarrow> Inl e
      | None \<Rightarrow>
          (case tail s of
             None \<Rightarrow> Inl (if ndebug then BadPointer else AssertFail)
           | Some old \<Rightarrow>
               (case fmlookup (heap s) old of
                  None \<Rightarrow> Inl BadPointer
                | Some n \<Rightarrow>
                    Inr (s\<lparr>tail := Some node,
                           heap := fmupd old (n\<lparr>next_n := Some node\<rparr>) (heap s)\<rparr>))))"

text \<open>
  The loop of \<open>free_excess\<close>. Every round frees an allocated node, so the finite heap
  shrinks and the loop ends.
\<close>

function free_loop :: "bool \<Rightarrow> heap \<Rightarrow> ptr \<Rightarrow> ptr \<Rightarrow> error + heap" where
  "free_loop ndebug h node hd_p =
     (if node = hd_p then Inr h
      else case node of
        None \<Rightarrow> Inl (if ndebug then BadPointer else AssertFail)
      | Some a \<Rightarrow>
          (case fmlookup h a of
             None \<Rightarrow> Inl BadPointer
           | Some n \<Rightarrow> free_loop ndebug (fmdrop a h) (next_n n) hd_p))"
  by pat_completeness auto
termination
proof (relation "measure (\<lambda>(ndebug, h, node, hd_p). card (fmdom' h))")
  show "wf (measure (\<lambda>(ndebug, h, node, hd_p). card (fmdom' h)))"
    by simp
next
  fix ndebug :: bool and h :: heap and node hd_p :: ptr and a :: addr and n :: Node
  assume "fmlookup h a = Some n"
  then have "a \<in> fmdom' h"
    by (rule fmdom'I)
  then have "card (fmdom' h - {a}) < card (fmdom' h)"
    by (rule card_Diff1_less [OF finite_fmdom'])
  then show "((ndebug, fmdrop a h, next_n n, hd_p), (ndebug, h, node, hd_p))
      \<in> measure (\<lambda>(ndebug, h, node, hd_p). card (fmdom' h))"
    by simp
qed

declare free_loop.simps [simp del]

definition free_excess :: "bool \<Rightarrow> State \<Rightarrow> error + State" where
  "free_excess ndebug s =
     (case free_loop ndebug (heap s) (malloc_head s) (head s) of
        Inl e \<Rightarrow> Inl e
      | Inr h \<Rightarrow> Inr (s\<lparr>malloc_head := head s, heap := h\<rparr>))"

text \<open>
  The loop of \<open>process\<close>: follow \<open>next\<close> from the node at hand, emitting the payload of
  every node reached (the call of \<open>jack_midi_event_write\<close>, whose result the code
  ignores), until a node has no successor. On a cyclic chain the loop never ends, so
  not returning is the value \<open>None\<close>.
\<close>

partial_function (option) drain :: "heap \<Rightarrow> ptr \<Rightarrow> byte list list \<Rightarrow> (error + (ptr \<times> byte list list)) option" where
  "drain h node out =
     (case node of
        None \<Rightarrow> Some (Inl BadPointer)
      | Some a \<Rightarrow>
          (case fmlookup h a of
             None \<Rightarrow> Some (Inl BadPointer)
           | Some n \<Rightarrow>
               (case next_n n of
                  None \<Rightarrow> Some (Inr (node, out))
                | Some b \<Rightarrow>
                    (case fmlookup h b of
                       None \<Rightarrow> Some (Inl BadPointer)
                     | Some n' \<Rightarrow> drain h (Some b) (out @ [payload n'])))))"

declare drain.simps [code]

text \<open>
  \<open>process\<close>: \<open>buffer\<close> says whether \<open>jack_port_get_buffer\<close> returned a buffer. The result
  is the return code, the events written to the (cleared) buffer, and the state.
\<close>

definition process :: "State \<Rightarrow> bool \<Rightarrow> (error + (int \<times> byte list list \<times> State)) option" where
  "process s buffer =
     (if port s = None then Some (Inr (0, [], s))
      else if \<not> buffer then Some (Inr (- 1, [], s))
      else case drain (heap s) (head s) [] of
        None \<Rightarrow> None
      | Some (Inl e) \<Rightarrow> Some (Inl e)
      | Some (Inr (node, out)) \<Rightarrow> Some (Inr (0, out, s\<lparr>head := node\<rparr>)))"

section \<open>The hex codec\<close>

text \<open>
  \<open>hex_to_int\<close> of jack-stdin-to-midi.c and \<open>int_to_hex\<close> of jack-midi-to-stdin.c. A
  \<open>char\<close> is compared through its code; a code above 127 (negative where \<open>char\<close> is
  signed) lies outside the three ranges either way.
\<close>

definition hex_to_int :: "char \<Rightarrow> int" where
  "hex_to_int c =
     (if of_char (CHR ''0'') \<le> (of_char c :: int) \<and> (of_char c :: int) \<le> of_char (CHR ''9'')
        then of_char c - of_char (CHR ''0'')
      else if of_char (CHR ''a'') \<le> (of_char c :: int) \<and> (of_char c :: int) \<le> of_char (CHR ''f'')
        then of_char c - of_char (CHR ''a'') + 10
      else if of_char (CHR ''A'') \<le> (of_char c :: int) \<and> (of_char c :: int) \<le> of_char (CHR ''F'')
        then of_char c - of_char (CHR ''A'') + 10
      else - 1)"

definition int_to_hex :: "int \<Rightarrow> char" where
  "int_to_hex n =
     (if 0 \<le> n \<and> n \<le> 9 then char_of (of_char (CHR ''0'') + n)
      else if 10 \<le> n \<and> n \<le> 15 then char_of (of_char (CHR ''a'') + (n - 10))
      else CHR ''?'')"

text \<open>
  What \<open>process\<close> of jack-midi-to-stdin.c appends to its buffer for one byte of an
  event, and for one whole event: two digits per byte, then the line feed.
\<close>

definition hex_pair :: "byte \<Rightarrow> string" where
  "hex_pair v = [int_to_hex (uint (drop_bit 4 v)), int_to_hex (uint (v AND 0xf))]"

definition encode_event :: "byte list \<Rightarrow> string" where
  "encode_event bs = concat (map hex_pair bs) @ [CHR 0x0A]"

section \<open>jack-stdin-to-midi.c: handle\_line\<close>

datatype diag = BadMessageLength | InvalidHexDigit char

text \<open>
  The \<open>for\<close> loop of \<open>handle_line\<close> over the characters from index \<open>i\<close> on, working
  on the message cells of the new node: it stops at the first character that is no hex
  digit and returns it together with the cells as they are at that moment.
\<close>

fun fill :: "string \<Rightarrow> nat \<Rightarrow> (nat \<Rightarrow> byte) \<Rightarrow> char option \<times> (nat \<Rightarrow> byte)" where
  "fill [] i msg = (None, msg)"
| "fill (c # cs) i msg =
     (if hex_to_int c = - 1 then (Some c, msg)
      else if i mod 2 = 0
        then fill cs (Suc i) (msg(i div 2 := word_of_int (push_bit 4 (hex_to_int c))))
        else fill cs (Suc i) (msg(i div 2 := msg (i div 2) OR word_of_int (hex_to_int c))))"

text \<open>
  \<open>handle_line\<close>: the line is the \<open>len\<close> characters the caller collected, \<open>m\<close> is what
  \<open>malloc\<close> answers if it is called. The result is what was written to \<open>stderr\<close> and
  the state. On a character that is no hex digit the function returns with the new node
  allocated and never linked or freed.
\<close>

definition handle_line :: "bool \<Rightarrow> malloc_result \<Rightarrow> State \<Rightarrow> string \<Rightarrow> error + (diag list \<times> State)" where
  "handle_line ndebug m s line =
     (case free_excess ndebug s of
        Inl e \<Rightarrow> Inl e
      | Inr s1 \<Rightarrow>
          if odd (length line) then Inr ([BadMessageLength], s1)
          else
            (case node_new (heap s1) m (length line div 2) None of
               Inl e \<Rightarrow> Inl e
             | Inr (node, h) \<Rightarrow>
                 (case fmlookup h node of
                    None \<Rightarrow> Inl BadPointer
                  | Some n \<Rightarrow>
                      (case fill line 0 (message n) of
                         (Some c, msg) \<Rightarrow>
                           Inr ([InvalidHexDigit c],
                                s1\<lparr>heap := fmupd node (n\<lparr>message := msg\<rparr>) h\<rparr>)
                       | (None, msg) \<Rightarrow>
                           (case push_back ndebug
                                   (s1\<lparr>heap := fmupd node (n\<lparr>message := msg\<rparr>) h\<rparr>) node of
                              Inl e \<Rightarrow> Inl e
                            | Inr s2 \<Rightarrow> Inr ([], s2))))))"

text \<open>
  For stating what the decoder yields: the bytes of a line read two characters at a
  time, high digit first, and the upper-case form of a hex letter.
\<close>

fun decode_pairs :: "string \<Rightarrow> byte list" where
  "decode_pairs (c1 # c2 # cs) =
     (word_of_int (push_bit 4 (hex_to_int c1)) OR word_of_int (hex_to_int c2)) # decode_pairs cs"
| "decode_pairs cs = []"

definition upper_hex :: "char \<Rightarrow> char" where
  "upper_hex c =
     (if of_char (CHR ''a'') \<le> (of_char c :: int) \<and> (of_char c :: int) \<le> of_char (CHR ''f'')
        then char_of ((of_char c :: int) - 32)
      else c)"

text \<open>
  The state \<open>main\<close> starts from: the blank node is the sentinel, and the three node
  pointers point at it.
\<close>

definition init_state :: "malloc_result \<Rightarrow> nat option \<Rightarrow> error + State" where
  "init_state m p =
     (case node_blank fmempty m of
        Inl e \<Rightarrow> Inl e
      | Inr (blank, h) \<Rightarrow>
          Inr \<lparr>port = p, malloc_head = Some blank, head = Some blank, tail = Some blank, heap = h\<rparr>)"

section \<open>The event loop of cv.c and jack-stdin-to-midi.c\<close>

text \<open>
  The two \<open>main\<close> functions run the same loop and differ in three places: the size of
  the line buffer (\<open>cap\<close>: 128 in cv.c, 1024 in jack-stdin-to-midi.c), whether the
  byte \<open>X\<close> empties the buffer (\<open>marker\<close>: only in jack-stdin-to-midi.c), and the line
  handler. The loop is written once, over these three, and instantiated below.

  \<open>feed_bytes\<close> is the \<open>for\<close> loop over the bytes of one \<open>read\<close>; the buffer is the
  list of the \<open>linelen\<close> characters collected so far.
\<close>

fun feed_bytes :: "bool \<Rightarrow> nat \<Rightarrow> ('s \<Rightarrow> string \<Rightarrow> error + 's) \<Rightarrow> 's \<Rightarrow> string \<Rightarrow> string \<Rightarrow> error + ('s \<times> string)" where
  "feed_bytes marker cap handle s lin [] = Inr (s, lin)"
| "feed_bytes marker cap handle s lin (c # cs) =
     (if marker \<and> c = CHR ''X'' then feed_bytes marker cap handle s [] cs
      else if c = CHR 0x0A then
        (case handle s lin of
           Inl e \<Rightarrow> Inl e
         | Inr s' \<Rightarrow> feed_bytes marker cap handle s' [] cs)
      else if length lin < cap - 1 then feed_bytes marker cap handle s (lin @ [c]) cs
      else feed_bytes marker cap handle s lin cs)"

text \<open>
  The inner \<open>while\<close> loop: one element per \<open>read\<close> that returned data. How the loop
  ends (\<open>read\<close> returning 0, or a negative value) is the wake's \<open>eof\<close> below.
\<close>

fun read_loop :: "bool \<Rightarrow> nat \<Rightarrow> ('s \<Rightarrow> string \<Rightarrow> error + 's) \<Rightarrow> 's \<Rightarrow> string \<Rightarrow> string list \<Rightarrow> error + ('s \<times> string)" where
  "read_loop marker cap handle s lin [] = Inr (s, lin)"
| "read_loop marker cap handle s lin (b # bs) =
     (case feed_bytes marker cap handle s lin b of
        Inl e \<Rightarrow> Inl e
      | Inr (s', lin') \<Rightarrow> read_loop marker cap handle s' lin' bs)"

datatype pollflag = POLLIN | POLLPRI | POLLOUT | POLLERR | POLLHUP | POLLNVAL

text \<open>
  What the environment answers in one round of the outer loop: the return value of
  \<open>poll\<close>, whether \<open>errno\<close> is \<open>EINTR\<close>, the events on the two descriptors, the data of
  the successive \<open>read\<close> calls and whether the last \<open>read\<close> returned 0.
\<close>

record wake =
  status :: int
  eintr :: bool
  revents0 :: "pollflag set"
  revents1 :: "pollflag set"
  chunks :: "string list"
  eof :: bool

record 's loop_state =
  inner :: 's
  line_buf :: string
  stdin_fd :: int

datatype 's outcome = Continue "'s loop_state" | Break | Fail | Crash error

text \<open>
  One round of the outer \<open>while\<close> loop. \<open>poll\<close> ignores an entry whose descriptor is
  negative and reports no event for it.
\<close>

definition loop_iter :: "bool \<Rightarrow> nat \<Rightarrow> ('s \<Rightarrow> string \<Rightarrow> error + 's) \<Rightarrow> 's loop_state \<Rightarrow> wake \<Rightarrow> 's outcome" where
  "loop_iter marker cap handle ls w =
     (let r0 = revents0 w;
          r1 = (if stdin_fd ls < 0 then {} else revents1 w)
      in if status w > 0 then
           (if POLLNVAL \<in> r0 \<or> POLLNVAL \<in> r1 then Fail
            else if r0 \<noteq> {} then Break
            else if POLLIN \<in> r1 then
              (case read_loop marker cap handle (inner ls) (line_buf ls) (chunks w) of
                 Inl e \<Rightarrow> Crash e
               | Inr (s', lin') \<Rightarrow>
                   Continue (ls\<lparr>inner := s', line_buf := lin',
                                stdin_fd := (if eof w then - 1 else stdin_fd ls)\<rparr>))
            else if r1 \<noteq> {} then Continue (ls\<lparr>stdin_fd := - 1\<rparr>)
            else Continue ls)
         else if status w = 0 \<or> eintr w then Continue ls
         else Fail)"

fun run_loop :: "bool \<Rightarrow> nat \<Rightarrow> ('s \<Rightarrow> string \<Rightarrow> error + 's) \<Rightarrow> 's loop_state \<Rightarrow> wake list \<Rightarrow> 's outcome" where
  "run_loop marker cap handle ls [] = Continue ls"
| "run_loop marker cap handle ls (w # ws) =
     (case loop_iter marker cap handle ls w of
        Continue ls' \<Rightarrow> run_loop marker cap handle ls' ws
      | Break \<Rightarrow> Break
      | Fail \<Rightarrow> Fail
      | Crash e \<Rightarrow> Crash e)"

subsection \<open>The instance of jack-stdin-to-midi.c\<close>

text \<open>
  The program state seen from the loop: the queue, the number of lines handled so far
  and what went to \<open>stderr\<close>. \<open>alloc k\<close> is what \<open>malloc\<close> answers while line \<open>k\<close> is
  handled.
\<close>

record midi_world =
  queue :: State
  nlines :: nat
  stderr_m :: "diag list"

definition midi_line :: "bool \<Rightarrow> (nat \<Rightarrow> malloc_result) \<Rightarrow> midi_world \<Rightarrow> string \<Rightarrow> error + midi_world" where
  "midi_line ndebug alloc w lin =
     (case handle_line ndebug (alloc (nlines w)) (queue w) lin of
        Inl e \<Rightarrow> Inl e
      | Inr (ds, s') \<Rightarrow> Inr \<lparr>queue = s', nlines = Suc (nlines w), stderr_m = stderr_m w @ ds\<rparr>)"

definition midi_feed :: "bool \<Rightarrow> (nat \<Rightarrow> malloc_result) \<Rightarrow> midi_world \<Rightarrow> string \<Rightarrow> string \<Rightarrow> error + (midi_world \<times> string)" where
  "midi_feed ndebug alloc = feed_bytes True 1024 (midi_line ndebug alloc)"

definition midi_iter :: "bool \<Rightarrow> (nat \<Rightarrow> malloc_result) \<Rightarrow> midi_world loop_state \<Rightarrow> wake \<Rightarrow> midi_world outcome" where
  "midi_iter ndebug alloc = loop_iter True 1024 (midi_line ndebug alloc)"

section \<open>cv.c\<close>

text \<open>
  A \<open>float\<close> as far as \<open>handle_line\<close> looks at it: not-a-number, the two infinities, or
  a number. \<open>strtof\<close> belongs to the C library and is a parameter: for the C string it
  is given it answers the value, where \<open>endptr\<close> points (as an offset from the start of
  the line; \<open>None\<close> for \<open>NULL\<close>) and the value of \<open>errno\<close> afterwards.
\<close>

datatype cfloat = NaN | MInf | Fin real | PInf

record strtof_result =
  sr_value :: cfloat
  sr_endptr :: "nat option"
  sr_errno :: int

fun is_nan :: "cfloat \<Rightarrow> bool" where
  "is_nan NaN = True"
| "is_nan _ = False"

fun lt_zero :: "cfloat \<Rightarrow> bool" where
  "lt_zero MInf = True"
| "lt_zero (Fin r) = (r < 0)"
| "lt_zero _ = False"

fun gt_one :: "cfloat \<Rightarrow> bool" where
  "gt_one PInf = True"
| "gt_one (Fin r) = (r > 1)"
| "gt_one _ = False"

record cv_state =
  port_cv :: "nat option"
  value_cv :: cfloat

datatype cv_diag = CouldNotParse | ValueNaN | ClampedTo0 | ClampedTo1

text \<open>
  \<open>handle_line\<close> of cv.c; \<open>clamp\<close> is the build-time constant set by \<open>JACLI_CV_CLAMP\<close>.
\<close>

definition handle_line_cv :: "bool \<Rightarrow> (string \<Rightarrow> strtof_result) \<Rightarrow> cv_state \<Rightarrow> string \<Rightarrow> cv_diag list \<times> cv_state" where
  "handle_line_cv clamp strtof s lin =
     (let r = strtof lin in
      if sr_endptr r = None \<or> sr_endptr r = Some 0 \<or> sr_errno r \<noteq> 0 then ([CouldNotParse], s)
      else if is_nan (sr_value r) then ([ValueNaN], s)
      else if \<not> clamp then ([], s\<lparr>value_cv := sr_value r\<rparr>)
      else if lt_zero (sr_value r) then ([ClampedTo0], s\<lparr>value_cv := Fin 0\<rparr>)
      else if gt_one (sr_value r) then ([ClampedTo1], s\<lparr>value_cv := Fin 1\<rparr>)
      else ([], s\<lparr>value_cv := sr_value r\<rparr>))"

text \<open>
  The instance of the loop: the buffer is handed over as a C string, so the handler sees
  it up to the first NUL.
\<close>

record cv_world =
  cell :: cv_state
  stderr_cv :: "cv_diag list"

definition cv_line :: "bool \<Rightarrow> (string \<Rightarrow> strtof_result) \<Rightarrow> cv_world \<Rightarrow> string \<Rightarrow> error + cv_world" where
  "cv_line clamp strtof w lin =
     (case handle_line_cv clamp strtof (cell w) (takeWhile (\<lambda>c. c \<noteq> CHR 0x00) lin) of
        (ds, s') \<Rightarrow> Inr \<lparr>cell = s', stderr_cv = stderr_cv w @ ds\<rparr>)"

definition cv_feed :: "bool \<Rightarrow> (string \<Rightarrow> strtof_result) \<Rightarrow> cv_world \<Rightarrow> string \<Rightarrow> string \<Rightarrow> error + (cv_world \<times> string)" where
  "cv_feed clamp strtof = feed_bytes False 128 (cv_line clamp strtof)"

definition cv_iter :: "bool \<Rightarrow> (string \<Rightarrow> strtof_result) \<Rightarrow> cv_world loop_state \<Rightarrow> wake \<Rightarrow> cv_world outcome" where
  "cv_iter clamp strtof = loop_iter False 128 (cv_line clamp strtof)"

text \<open>
  What the C standard says \<open>strtof\<close> answers on a few lines, for use at concrete inputs:
  the number nearest to the literal, the offset just behind it, and \<open>ERANGE\<close> (34 on
  Linux) when the literal is out of range. Any other line counts as one without an
  initial literal here.
\<close>

definition strtof_sample :: "string \<Rightarrow> strtof_result" where
  "strtof_sample lin =
     (if lin = ''1.5'' then \<lparr>sr_value = Fin (3 / 2), sr_endptr = Some 3, sr_errno = 0\<rparr>
      else if lin = ''-0.2'' then \<lparr>sr_value = Fin (- 13421773 / 67108864), sr_endptr = Some 4, sr_errno = 0\<rparr>
      else if lin = ''0.5'' then \<lparr>sr_value = Fin (1 / 2), sr_endptr = Some 3, sr_errno = 0\<rparr>
      else if lin = ''0.5abc'' then \<lparr>sr_value = Fin (1 / 2), sr_endptr = Some 3, sr_errno = 0\<rparr>
      else if lin = ''nan'' then \<lparr>sr_value = NaN, sr_endptr = Some 3, sr_errno = 0\<rparr>
      else if lin = ''1e99'' then \<lparr>sr_value = PInf, sr_endptr = Some 4, sr_errno = 34\<rparr>
      else \<lparr>sr_value = Fin 0, sr_endptr = Some 0, sr_errno = 0\<rparr>)"

section \<open>The shape of the queue\<close>

text \<open>
  \<open>path h p as q\<close>: following \<open>next\<close> from \<open>p\<close> visits exactly the allocated nodes
  \<open>as\<close>, in this order, and arrives at \<open>q\<close>.
\<close>

primrec path :: "heap \<Rightarrow> ptr \<Rightarrow> addr list \<Rightarrow> ptr \<Rightarrow> bool" where
  "path h p [] q = (p = q)"
| "path h p (a # as) q =
     (p = Some a \<and> (case fmlookup h a of None \<Rightarrow> False | Some n \<Rightarrow> path h (next_n n) as q))"

text \<open>
  The invariant of the queue: \<open>as\<close> are the retired nodes, from the reclamation frontier
  up to the emission cursor; \<open>bs\<close> are the nodes from the emission cursor to the tail,
  whose link is unset.
\<close>

definition queue_inv :: "State \<Rightarrow> addr list \<Rightarrow> addr list \<Rightarrow> bool" where
  "queue_inv s as bs =
     (bs \<noteq> [] \<and> distinct (as @ bs) \<and>
      path (heap s) (malloc_head s) as (head s) \<and>
      path (heap s) (head s) bs None \<and>
      tail s = Some (last bs))"

text \<open>The payloads of the nodes \<open>bs\<close>, in this order.\<close>

definition payloads :: "heap \<Rightarrow> addr list \<Rightarrow> byte list list" where
  "payloads h bs = map (\<lambda>b. payload (the (fmlookup h b))) bs"

text \<open>\<open>malloc\<close> never answers with the address of a block that is still allocated.\<close>

definition malloc_ok :: "malloc_result \<Rightarrow> heap \<Rightarrow> bool" where
  "malloc_ok m h = (case m of None \<Rightarrow> True | Some (a, junk) \<Rightarrow> fmlookup h a = None)"

text \<open>
  Enqueueing a message: a node made by \<open>node_new\<close> from the bytes, handed to
  \<open>push_back\<close>.
\<close>

definition enqueue :: "bool \<Rightarrow> malloc_result \<Rightarrow> State \<Rightarrow> byte list \<Rightarrow> error + State" where
  "enqueue ndebug m s bs =
     (case node_new (heap s) m (length bs) (Some (\<lambda>i. bs ! i)) of
        Inl e \<Rightarrow> Inl e
      | Inr (node, h) \<Rightarrow> push_back ndebug (s\<lparr>heap := h\<rparr>) node)"

fun enqueue_all :: "bool \<Rightarrow> State \<Rightarrow> (addr \<times> (nat \<Rightarrow> byte) \<times> byte list) list \<Rightarrow> error + State" where
  "enqueue_all ndebug s [] = Inr s"
| "enqueue_all ndebug s ((a, junk, bs) # ms) =
     (case enqueue ndebug (Some (a, junk)) s bs of
        Inl e \<Rightarrow> Inl e
      | Inr s' \<Rightarrow> enqueue_all ndebug s' ms)"

text \<open>
  The states the program can be in: the initial one, and any state reached from one of
  them by a call of the control thread (a line handled, a message enqueued, the
  reclaimer alone) or of the real-time thread (\<open>process\<close>), calls taken one at a time.
\<close>

inductive reachable :: "bool \<Rightarrow> State \<Rightarrow> bool" for ndebug :: bool where
  r_init: "init_state m p = Inr s \<Longrightarrow> reachable ndebug s"
| r_port: "reachable ndebug s \<Longrightarrow> reachable ndebug (s\<lparr>port := p\<rparr>)"
| r_line: "reachable ndebug s \<Longrightarrow> free_excess ndebug s = Inr s1 \<Longrightarrow> malloc_ok m (heap s1) \<Longrightarrow>
           handle_line ndebug m s lin = Inr (ds, s') \<Longrightarrow> reachable ndebug s'"
| r_enqueue: "reachable ndebug s \<Longrightarrow> malloc_ok m (heap s) \<Longrightarrow>
           enqueue ndebug m s bs = Inr s' \<Longrightarrow> reachable ndebug s'"
| r_process: "reachable ndebug s \<Longrightarrow> process s buffer = Some (Inr (rc, out, s')) \<Longrightarrow>
           reachable ndebug s'"
| r_reclaim: "reachable ndebug s \<Longrightarrow> free_excess ndebug s = Inr s' \<Longrightarrow> reachable ndebug s'"

text \<open>
  Concrete inputs for examples: the state \<open>main\<close> starts from when \<open>malloc\<close> hands
  out address 0 with zeroed memory and the port handle is 7, the same with line counter
  and empty \<open>stderr\<close>, and a \<open>malloc\<close> that answers the \<open>k\<close>-th line with address
  \<open>k + 1\<close> and zeroed memory.
\<close>

definition sentinel_state :: State where
  "sentinel_state =
     \<lparr>port = Some 7, malloc_head = Some 0, head = Some 0, tail = Some 0,
      heap = fmupd 0 \<lparr>next_n = None, length_n = 0, message = (\<lambda>i. 0)\<rparr> fmempty\<rparr>"

definition sentinel_world :: midi_world where
  "sentinel_world = \<lparr>queue = sentinel_state, nlines = 0, stderr_m = []\<rparr>"

definition alloc_next :: "nat \<Rightarrow> malloc_result" where
  "alloc_next k = Some (Suc k, (\<lambda>i. 0))"

text \<open>
  The loop state cv.c starts from (port handle 7, the cell zero-initialised, standard
  input open), for examples.
\<close>

definition cv_start :: "cv_world loop_state" where
  "cv_start =
     \<lparr>inner = \<lparr>cell = \<lparr>port_cv = Some 7, value_cv = Fin 0\<rparr>, stderr_cv = []\<rparr>,
      line_buf = [], stdin_fd = 0\<rparr>"

text \<open>
  A state with a retired node, for examples: the initial state after the message
  \<open>90\<close> was enqueued at address 1 and \<open>process\<close> has run once, so that \<open>head\<close> is at
  node 1 and node 0, whose link points to node 1, waits for the reclaimer.
\<close>

definition retired_state :: State where
  "retired_state =
     \<lparr>port = Some 7, malloc_head = Some 0, head = Some 1, tail = Some 1,
      heap = fmupd 0 \<lparr>next_n = Some 1, length_n = 0, message = (\<lambda>i. 0)\<rparr>
               (fmupd 1 \<lparr>next_n = None, length_n = 1,
                          message = (\<lambda>i. if i < length [0x90 :: byte] then [0x90] ! i else 0)\<rparr>
                  (fmupd 0 \<lparr>next_n = None, length_n = 0, message = (\<lambda>i. 0)\<rparr> fmempty))\<rparr>"





section \<open>Paths and the loops over them\<close>

lemma path_append:
  "path h p (as @ bs) q = (\<exists>r. path h p as r \<and> path h r bs q)"
  by (induction as arbitrary: p) (auto split: option.splits)

lemma path_allocated: "path h p as q \<Longrightarrow> a \<in> set as \<Longrightarrow> fmlookup h a \<noteq> None"
  by (induction as arbitrary: p) (auto split: option.splits)

lemma path_drop: "a \<notin> set as \<Longrightarrow> path (fmdrop a h) p as q = path h p as q"
  by (induction as arbitrary: p) (auto split: option.splits)

lemma path_drop_set: "A \<inter> set as = {} \<Longrightarrow> path (fmdrop_set A h) p as q = path h p as q"
  by (induction as arbitrary: p) (auto split: option.splits)

lemma path_upd_other: "a \<notin> set as \<Longrightarrow> path (fmupd a n h) p as q = path h p as q"
  by (induction as arbitrary: p) (auto split: option.splits)

lemma path_prefix:
  "path h p xs q \<Longrightarrow> path h p bs None \<Longrightarrow> \<exists>ys. bs = xs @ ys"
proof (induction xs arbitrary: p bs)
  case Nil
  then show ?case by simp
next
  case (Cons a xs)
  then show ?case by (cases bs) (auto split: option.splits)
qed

lemma path_link_last:
  "path h p bs None \<Longrightarrow> bs \<noteq> [] \<Longrightarrow> distinct bs \<Longrightarrow> fmlookup h (last bs) = Some n \<Longrightarrow>
   path (fmupd (last bs) (n\<lparr>next_n := Some a\<rparr>) h) p bs (Some a)"
proof (induction bs arbitrary: p)
  case Nil
  then show ?case by simp
next
  case (Cons b bs)
  show ?case
  proof (cases "bs = []")
    case True
    with Cons.prems show ?thesis by (auto split: option.splits)
  next
    case False
    with Cons.prems have "b \<noteq> last bs" by auto
    with False Cons.prems Cons.IH show ?thesis
      by (auto split: option.splits)
  qed
qed

lemma free_loop_path:
  "path h p as q \<Longrightarrow> distinct as \<Longrightarrow> q \<notin> Some ` set as \<Longrightarrow>
   free_loop nd h p q = Inr (fmdrop_set (set as) h)"
proof (induction as arbitrary: h p)
  case Nil
  then show ?case by (simp add: free_loop.simps)
next
  case (Cons a as)
  from Cons.prems obtain n where n: "p = Some a" "fmlookup h a = Some n" "path h (next_n n) as q"
    by (auto split: option.splits)
  from Cons.prems have d: "a \<notin> set as" "distinct as" "q \<noteq> Some a" "q \<notin> Some ` set as"
    by auto
  have "path (fmdrop a h) (next_n n) as q"
    using n(3) d(1) by (simp add: path_drop)
  then have "free_loop nd (fmdrop a h) (next_n n) q = Inr (fmdrop_set (set as) (fmdrop a h))"
    using Cons.IH d by blast
  then show ?case
    using n d by (simp add: free_loop.simps [of nd h "Some a"])
qed

lemma drain_path:
  "path h (Some a) (a # bs) None \<Longrightarrow>
   drain h (Some a) out =
     Some (Inr (Some (last (a # bs)), out @ map (\<lambda>b. payload (the (fmlookup h b))) bs))"
proof (induction bs arbitrary: a out)
  case Nil
  then show ?case
    by (subst drain.simps) (auto split: option.splits)
next
  case (Cons b bs)
  from Cons.prems obtain n n' where n: "fmlookup h a = Some n" "next_n n = Some b"
      "fmlookup h b = Some n'" "path h (Some b) (b # bs) None"
    by (auto split: option.splits)
  show ?case
    using n Cons.IH [OF n(4), of "out @ [payload n']"]
    by (subst drain.simps) simp
qed

lemma queue_inv_head: "queue_inv s as bs \<Longrightarrow> head s = Some (hd bs)"
  by (cases bs) (auto simp: queue_inv_def)

lemma queue_inv_init:
  "init_state (Some (b, j)) p = Inr s \<Longrightarrow> queue_inv s [] [b]"
  by (auto simp: init_state_def node_blank_def node_new_def queue_inv_def)

lemma push_back_inv:
  assumes inv: "queue_inv s as bs"
    and new: "a \<notin> set (as @ bs)" "fmlookup (heap s) a = Some na" "next_n na = None"
  shows "\<exists>n. fmlookup (heap s) (last bs) = Some n \<and>
     push_back nd s a =
       Inr (s\<lparr>tail := Some a, heap := fmupd (last bs) (n\<lparr>next_n := Some a\<rparr>) (heap s)\<rparr>) \<and>
     queue_inv (s\<lparr>tail := Some a, heap := fmupd (last bs) (n\<lparr>next_n := Some a\<rparr>) (heap s)\<rparr>)
       as (bs @ [a])"
proof -
  from inv have ne: "bs \<noteq> []" and d: "distinct (as @ bs)"
    and p1: "path (heap s) (malloc_head s) as (head s)"
    and p2: "path (heap s) (head s) bs None" and t: "tail s = Some (last bs)"
    by (auto simp: queue_inv_def)
  from ne have lb: "last bs \<in> set bs" by simp
  with p2 obtain n where n: "fmlookup (heap s) (last bs) = Some n"
    using path_allocated by fastforce
  let ?h = "fmupd (last bs) (n\<lparr>next_n := Some a\<rparr>) (heap s)"
  from lb new(1) have neq: "a \<noteq> last bs" by auto
  have pb: "push_back nd s a = Inr (s\<lparr>tail := Some a, heap := ?h\<rparr>)"
    using t n new by (simp add: push_back_def assert_next_null_def)
  from d lb have "last bs \<notin> set as" by auto
  then have q1: "path ?h (malloc_head s) as (head s)"
    using p1 by (simp add: path_upd_other)
  from d have "distinct bs" by simp
  with p2 ne n have q2: "path ?h (head s) bs (Some a)"
    by (simp add: path_link_last)
  have q3: "path ?h (Some a) [a] None"
    using new neq by simp
  have "path ?h (head s) (bs @ [a]) None"
    unfolding path_append using q2 q3 by blast
  then have "queue_inv (s\<lparr>tail := Some a, heap := ?h\<rparr>) as (bs @ [a])"
    using q1 d new(1) by (simp add: queue_inv_def)
  with n pb show ?thesis by blast
qed

lemma payload_copy:
  "payload \<lparr>next_n = x, length_n = length bs, message = (\<lambda>i. if i < length bs then bs ! i else junk i)\<rparr> = bs"
proof -
  have "map (\<lambda>i. if i < length bs then bs ! i else junk i) [0..<length bs] = map ((!) bs) [0..<length bs]"
    by (rule map_cong) simp_all
  then show ?thesis
    by (simp add: payload_def map_nth)
qed

lemma payload_next [simp]: "payload (n\<lparr>next_n := x\<rparr>) = payload n"
  by (simp add: payload_def)

lemma enqueue_inv:
  assumes inv: "queue_inv s as bs" and fresh: "fmlookup (heap s) a = None"
  shows "\<exists>s'. enqueue nd (Some (a, junk)) s msg = Inr s' \<and> queue_inv s' as (bs @ [a]) \<and>
      head s' = head s \<and> port s' = port s \<and> malloc_head s' = malloc_head s \<and>
      payloads (heap s') (bs @ [a]) = payloads (heap s) bs @ [msg] \<and>
      (\<forall>x. x \<noteq> a \<longrightarrow> (fmlookup (heap s') x = None) = (fmlookup (heap s) x = None))"
proof -
  let ?na = "\<lparr>next_n = None, length_n = length msg,
              message = (\<lambda>i. if i < length msg then msg ! i else junk i)\<rparr>"
  let ?s1 = "s\<lparr>heap := fmupd a ?na (heap s)\<rparr>"
  from inv have p1: "path (heap s) (malloc_head s) as (head s)"
    and p2: "path (heap s) (head s) bs None" and ne: "bs \<noteq> []"
    by (auto simp: queue_inv_def)
  from p1 p2 fresh have notin: "a \<notin> set (as @ bs)"
    using path_allocated by fastforce
  then have inv1: "queue_inv ?s1 as bs"
    using inv by (simp add: queue_inv_def path_upd_other)
  have la: "fmlookup (heap ?s1) a = Some ?na" by simp
  from push_back_inv [OF inv1 notin la, of nd] obtain n where
    n: "fmlookup (heap ?s1) (last bs) = Some n"
    and pb: "push_back nd ?s1 a =
       Inr (?s1\<lparr>tail := Some a, heap := fmupd (last bs) (n\<lparr>next_n := Some a\<rparr>) (heap ?s1)\<rparr>)"
    and inv2: "queue_inv (?s1\<lparr>tail := Some a, heap := fmupd (last bs) (n\<lparr>next_n := Some a\<rparr>) (heap ?s1)\<rparr>) as (bs @ [a])"
    by auto
  let ?s2 = "?s1\<lparr>tail := Some a, heap := fmupd (last bs) (n\<lparr>next_n := Some a\<rparr>) (heap ?s1)\<rparr>"
  have e: "enqueue nd (Some (a, junk)) s msg = Inr ?s2"
    using pb by (simp add: enqueue_def node_new_def)
  from notin ne have neq: "a \<noteq> last bs" by auto
  with n have n0: "fmlookup (heap s) (last bs) = Some n" by simp
  have pl: "payloads (heap ?s2) (bs @ [a]) = payloads (heap s) bs @ [msg]"
    using notin neq n0 by (auto simp: payloads_def payload_copy)
  have dom: "\<forall>x. x \<noteq> a \<longrightarrow> (fmlookup (heap ?s2) x = None) = (fmlookup (heap s) x = None)"
    using n0 by auto
  show ?thesis
    using e inv2 pl dom by (intro exI [of _ ?s2]) simp
qed

lemma enqueue_all_inv:
  "queue_inv s as bs \<Longrightarrow> distinct (map fst ms) \<Longrightarrow>
   (\<forall>a \<in> set (map fst ms). fmlookup (heap s) a = None) \<Longrightarrow>
   \<exists>s'. enqueue_all nd s ms = Inr s' \<and> queue_inv s' as (bs @ map fst ms) \<and>
      head s' = head s \<and> port s' = port s \<and> malloc_head s' = malloc_head s \<and>
      payloads (heap s') (bs @ map fst ms) = payloads (heap s) bs @ map (\<lambda>m. snd (snd m)) ms"
proof (induction ms arbitrary: s bs)
  case Nil
  then show ?case by simp
next
  case (Cons m ms)
  obtain a junk msg where m: "m = (a, junk, msg)" by (cases m)
  from Cons.prems m have fresh: "fmlookup (heap s) a = None" by simp
  from enqueue_inv [OF Cons.prems(1) fresh, of nd junk msg] obtain s1 where
    s1: "enqueue nd (Some (a, junk)) s msg = Inr s1" "queue_inv s1 as (bs @ [a])"
      "head s1 = head s" "port s1 = port s" "malloc_head s1 = malloc_head s"
      "payloads (heap s1) (bs @ [a]) = payloads (heap s) bs @ [msg]"
      "\<forall>x. x \<noteq> a \<longrightarrow> (fmlookup (heap s1) x = None) = (fmlookup (heap s) x = None)"
    by blast
  from Cons.prems m have d: "distinct (map fst ms)" and an: "a \<notin> set (map fst ms)" by auto
  have fr: "\<forall>x \<in> set (map fst ms). fmlookup (heap s1) x = None"
  proof
    fix x assume x: "x \<in> set (map fst ms)"
    with an have "x \<noteq> a" by auto
    moreover from x Cons.prems(3) have "fmlookup (heap s) x = None" by auto
    ultimately show "fmlookup (heap s1) x = None" using s1(7) by simp
  qed
  from Cons.IH [OF s1(2) d fr] obtain s' where
    s': "enqueue_all nd s1 ms = Inr s'" "queue_inv s' as ((bs @ [a]) @ map fst ms)"
      "head s' = head s1" "port s' = port s1" "malloc_head s' = malloc_head s1"
      "payloads (heap s') ((bs @ [a]) @ map fst ms) = payloads (heap s1) (bs @ [a]) @ map (\<lambda>m. snd (snd m)) ms"
    by blast
  show ?case
    using s1 s' m by (intro exI [of _ s']) simp
qed

lemma process_inv:
  assumes inv: "queue_inv s as bs" and p: "port s \<noteq> None"
  shows "process s True = Some (Inr (0, payloads (heap s) (tl bs), s\<lparr>head := Some (last bs)\<rparr>))"
proof -
  from inv obtain b bs' where bs: "bs = b # bs'" by (cases bs) (auto simp: queue_inv_def)
  with inv have h: "head s = Some b" and pa: "path (heap s) (Some b) (b # bs') None"
    by (auto simp: queue_inv_def)
  show ?thesis
    using drain_path [OF pa, of "[]"] p h bs
    by (simp add: process_def payloads_def)
qed

lemma free_excess_inv:
  assumes inv: "queue_inv s as bs"
  shows "free_excess nd s = Inr (s\<lparr>malloc_head := head s, heap := fmdrop_set (set as) (heap s)\<rparr>)"
    and "queue_inv (s\<lparr>malloc_head := head s, heap := fmdrop_set (set as) (heap s)\<rparr>) [] bs"
proof -
  from inv have ne: "bs \<noteq> []" and d: "distinct (as @ bs)"
    and p1: "path (heap s) (malloc_head s) as (head s)"
    and p2: "path (heap s) (head s) bs None" and t: "tail s = Some (last bs)"
    by (auto simp: queue_inv_def)
  from inv have h: "head s = Some (hd bs)" by (rule queue_inv_head)
  with ne d have "head s \<notin> Some ` set as" by (cases bs) auto
  moreover from d have "distinct as" by simp
  ultimately have "free_loop nd (heap s) (malloc_head s) (head s) = Inr (fmdrop_set (set as) (heap s))"
    using p1 by (intro free_loop_path)
  then show "free_excess nd s = Inr (s\<lparr>malloc_head := head s, heap := fmdrop_set (set as) (heap s)\<rparr>)"
    by (simp add: free_excess_def)
  from d have "set as \<inter> set bs = {}" by auto
  with p2 have "path (fmdrop_set (set as) (heap s)) (head s) bs None"
    by (simp add: path_drop_set)
  with ne d t show "queue_inv (s\<lparr>malloc_head := head s, heap := fmdrop_set (set as) (heap s)\<rparr>) [] bs"
    by (simp add: queue_inv_def)
qed

lemma queue_inv_advance:
  assumes inv: "queue_inv s as bs"
  shows "queue_inv (s\<lparr>head := Some (last bs)\<rparr>) (as @ butlast bs) [last bs]"
proof -
  from inv have ne: "bs \<noteq> []" and d: "distinct (as @ bs)"
    and p1: "path (heap s) (malloc_head s) as (head s)"
    and p2: "path (heap s) (head s) bs None" and t: "tail s = Some (last bs)"
    by (auto simp: queue_inv_def)
  from ne have split: "bs = butlast bs @ [last bs]" by simp
  with p2 have "path (heap s) (head s) (butlast bs @ [last bs]) None" by simp
  then obtain r where r: "path (heap s) (head s) (butlast bs) r" "path (heap s) r [last bs] None"
    unfolding path_append by blast
  from r(2) have r': "r = Some (last bs)" by simp
  from p1 r(1) r' have q1: "path (heap s) (malloc_head s) (as @ butlast bs) (Some (last bs))"
    unfolding path_append by blast
  from d split have "distinct (as @ butlast bs @ [last bs])" by simp
  with q1 r(2) r' t show ?thesis
    by (simp add: queue_inv_def)
qed

lemma process_preserves:
  assumes inv: "queue_inv s as bs" and run: "process s buffer = Some (Inr (rc, out, s'))"
  shows "\<exists>as' bs'. queue_inv s' as' bs'"
proof (cases "port s = None \<or> \<not> buffer")
  case True
  with run have "s' = s" by (auto simp: process_def split: if_splits)
  with inv show ?thesis by blast
next
  case False
  then have "process s True = Some (Inr (0, payloads (heap s) (tl bs), s\<lparr>head := Some (last bs)\<rparr>))"
    using process_inv [OF inv] by simp
  with False run have "s' = s\<lparr>head := Some (last bs)\<rparr>" by simp
  with queue_inv_advance [OF inv] show ?thesis by blast
qed

lemma fill_fst: "fst (fill cs i msg) = find (\<lambda>c. hex_to_int c = - 1) cs"
  by (induction cs arbitrary: i msg) auto

lemma handle_line_odd:
  assumes inv: "queue_inv s as bs" and odd: "odd (length line)"
  shows "handle_line nd m s line =
      Inr ([BadMessageLength], s\<lparr>malloc_head := head s, heap := fmdrop_set (set as) (heap s)\<rparr>)"
  using free_excess_inv(1) [OF inv, of nd] odd by (simp add: handle_line_def)

lemma handle_line_null:
  assumes inv: "queue_inv s as bs" and even: "even (length line)"
  shows "handle_line nd None s line = Inl Abort"
  using free_excess_inv(1) [OF inv, of nd] even by (simp add: handle_line_def node_new_def)

lemma handle_line_invalid:
  assumes inv: "queue_inv s as bs" and even: "even (length line)"
    and fresh: "fmlookup (fmdrop_set (set as) (heap s)) a = None"
    and f: "fill line 0 junk = (Some c, msg)"
  shows "handle_line nd (Some (a, junk)) s line =
      Inr ([InvalidHexDigit c],
           s\<lparr>malloc_head := head s,
             heap := fmupd a \<lparr>next_n = None, length_n = length line div 2, message = msg\<rparr>
                       (fmdrop_set (set as) (heap s))\<rparr>)"
    and "queue_inv (s\<lparr>malloc_head := head s,
             heap := fmupd a \<lparr>next_n = None, length_n = length line div 2, message = msg\<rparr>
                       (fmdrop_set (set as) (heap s))\<rparr>) [] bs"
proof -
  let ?s1 = "s\<lparr>malloc_head := head s, heap := fmdrop_set (set as) (heap s)\<rparr>"
  note fe = free_excess_inv(1) [OF inv, of nd] free_excess_inv(2) [OF inv]
  show "handle_line nd (Some (a, junk)) s line =
      Inr ([InvalidHexDigit c],
           s\<lparr>malloc_head := head s,
             heap := fmupd a \<lparr>next_n = None, length_n = length line div 2, message = msg\<rparr>
                       (fmdrop_set (set as) (heap s))\<rparr>)"
    using fe(1) even f by (simp add: handle_line_def node_new_def)
  from fe(2) have p: "path (heap ?s1) (head ?s1) bs None" by (simp add: queue_inv_def)
  from p fresh have "a \<notin> set bs" using path_allocated by fastforce
  with fe(2) show "queue_inv (s\<lparr>malloc_head := head s,
             heap := fmupd a \<lparr>next_n = None, length_n = length line div 2, message = msg\<rparr>
                       (fmdrop_set (set as) (heap s))\<rparr>) [] bs"
    by (simp add: queue_inv_def path_upd_other)
qed

lemma handle_line_valid:
  assumes inv: "queue_inv s as bs" and even: "even (length line)"
    and fresh: "fmlookup (fmdrop_set (set as) (heap s)) a = None"
    and f: "fill line 0 junk = (None, msg)"
  shows "\<exists>s'. handle_line nd (Some (a, junk)) s line = Inr ([], s') \<and>
      queue_inv s' [] (bs @ [a]) \<and> head s' = head s \<and> port s' = port s \<and> tail s' = Some a \<and>
      fmlookup (heap s') a = Some \<lparr>next_n = None, length_n = length line div 2, message = msg\<rparr> \<and>
      payloads (heap s') bs = payloads (heap s) bs \<and>
      (\<forall>x. x \<noteq> a \<longrightarrow>
         (fmlookup (heap s') x = None) = (fmlookup (fmdrop_set (set as) (heap s)) x = None))"
proof -
  let ?s1 = "s\<lparr>malloc_head := head s, heap := fmdrop_set (set as) (heap s)\<rparr>"
  let ?na = "\<lparr>next_n = None, length_n = length line div 2, message = msg\<rparr>"
  let ?s2 = "?s1\<lparr>heap := fmupd a ?na (heap ?s1)\<rparr>"
  note fe = free_excess_inv(1) [OF inv, of nd] free_excess_inv(2) [OF inv]
  from inv have d: "distinct (as @ bs)" and ne: "bs \<noteq> []" by (auto simp: queue_inv_def)
  from fe(2) have p: "path (heap ?s1) (head ?s1) bs None" by (simp add: queue_inv_def)
  from p fresh have notin: "a \<notin> set ([] @ bs)" using path_allocated by fastforce
  with fe(2) have inv2: "queue_inv ?s2 [] bs"
    by (simp add: queue_inv_def path_upd_other)
  have la: "fmlookup (heap ?s2) a = Some ?na" by simp
  from push_back_inv [OF inv2 notin la, of nd] obtain n where
    n: "fmlookup (heap ?s2) (last bs) = Some n"
    and pb: "push_back nd ?s2 a =
       Inr (?s2\<lparr>tail := Some a, heap := fmupd (last bs) (n\<lparr>next_n := Some a\<rparr>) (heap ?s2)\<rparr>)"
    and inv3: "queue_inv (?s2\<lparr>tail := Some a, heap := fmupd (last bs) (n\<lparr>next_n := Some a\<rparr>) (heap ?s2)\<rparr>) [] (bs @ [a])"
    by auto
  let ?s3 = "?s2\<lparr>tail := Some a, heap := fmupd (last bs) (n\<lparr>next_n := Some a\<rparr>) (heap ?s2)\<rparr>"
  have hl: "handle_line nd (Some (a, junk)) s line = Inr ([], ?s3)"
    using fe(1) even f pb by (simp add: handle_line_def node_new_def)
  from notin ne have neq: "a \<noteq> last bs" by auto
  from d have disj: "\<forall>b \<in> set bs. b \<notin> set as" by auto
  have pl: "payloads (heap ?s3) bs = payloads (heap s) bs"
    unfolding payloads_def
  proof (rule map_cong [OF refl])
    fix b assume b: "b \<in> set bs"
    with notin have ba: "b \<noteq> a" by auto
    from b disj have bas: "b \<notin> set as" by blast
    show "payload (the (fmlookup (heap ?s3) b)) = payload (the (fmlookup (heap s) b))"
    proof (cases "b = last bs")
      case True
      with n neq bas have "fmlookup (heap s) b = Some n" by simp
      with True show ?thesis by simp
    next
      case False
      with ba bas show ?thesis by simp
    qed
  qed
  have dom: "\<forall>x. x \<noteq> a \<longrightarrow>
      (fmlookup (heap ?s3) x = None) = (fmlookup (fmdrop_set (set as) (heap s)) x = None)"
    using n neq by auto
  have la3: "fmlookup (heap ?s3) a = Some ?na"
    using neq by simp
  have h3: "head ?s3 = head s" and p3: "port ?s3 = port s" and t3: "tail ?s3 = Some a"
    by simp_all
  show ?thesis
    by (rule exI [of _ ?s3])
      (rule conjI [OF hl conjI [OF inv3 conjI [OF h3 conjI [OF p3 conjI [OF t3
         conjI [OF la3 conjI [OF pl dom]]]]]]])
qed

lemma reachable_inv: "reachable nd s \<Longrightarrow> \<exists>as bs. queue_inv s as bs"
proof (induction rule: reachable.induct)
  case (r_init m p s)
  then obtain b j where "m = Some (b, j)"
    by (cases m) (auto simp: init_state_def node_blank_def node_new_def)
  with r_init show ?case using queue_inv_init by blast
next
  case (r_port s p)
  then show ?case by (auto simp: queue_inv_def)
next
  case (r_line s s1 m lin ds s')
  then obtain as bs where inv: "queue_inv s as bs" by blast
  note fe = free_excess_inv(1) [OF inv, of nd] free_excess_inv(2) [OF inv]
  from fe(1) r_line.hyps(2) have s1: "s1 = s\<lparr>malloc_head := head s, heap := fmdrop_set (set as) (heap s)\<rparr>"
    by simp
  show ?case
  proof (cases "odd (length lin)")
    case True
    with handle_line_odd [OF inv True, of nd m] r_line.hyps(4) fe(2) show ?thesis by auto
  next
    case False
    then have ev: "even (length lin)" by simp
    from handle_line_null [OF inv ev, of nd] r_line.hyps(4) obtain a junk where m: "m = Some (a, junk)"
      by (cases m) auto
    with r_line.hyps(3) s1 have fresh: "fmlookup (fmdrop_set (set as) (heap s)) a = None"
      by (simp add: malloc_ok_def)
    obtain bad msg where f: "fill lin 0 junk = (bad, msg)" by (cases "fill lin 0 junk")
    show ?thesis
    proof (cases bad)
      case None
      with handle_line_valid [OF inv ev fresh, of junk msg nd] f r_line.hyps(4) m
      show ?thesis by auto
    next
      case (Some c)
      with handle_line_invalid [OF inv ev fresh, of junk c msg] f r_line.hyps(4) m
      show ?thesis by auto
    qed
  qed
next
  case (r_enqueue s m bs s')
  then obtain as qs where inv: "queue_inv s as qs" by blast
  from r_enqueue.hyps(3) obtain a junk where m: "m = Some (a, junk)"
    by (cases m) (auto simp: enqueue_def node_new_def)
  with r_enqueue.hyps(2) have "fmlookup (heap s) a = None" by (simp add: malloc_ok_def)
  from enqueue_inv [OF inv this, of nd junk bs] r_enqueue.hyps(3) m show ?case by auto
next
  case (r_process s buffer rc out s')
  then show ?case using process_preserves by blast
next
  case (r_reclaim s s')
  then obtain as bs where inv: "queue_inv s as bs" by blast
  from free_excess_inv(1) [OF inv, of nd] free_excess_inv(2) [OF inv] r_reclaim.hyps(2)
  show ?case by auto
qed

section \<open>The codec and handle\_line, line by line\<close>

lemma hex_to_int_int_to_hex:
  assumes "0 \<le> n" "n \<le> 15"
  shows "hex_to_int (int_to_hex n) = n"
proof (cases "n \<le> 9")
  case True
  with assms have "(48 + n) mod 256 = 48 + n" by simp
  with True assms show ?thesis
    by (simp add: hex_to_int_def int_to_hex_def of_char_of)
next
  case False
  with assms have "(97 + (n - 10)) mod 256 = 97 + (n - 10)" by simp
  with False assms show ?thesis
    by (simp add: hex_to_int_def int_to_hex_def of_char_of)
qed

lemma mask4: "(0xf :: byte) = mask 4"
  by (simp add: mask_eq_exp_minus_1)

lemma byte_split:
  "(word_of_int (push_bit 4 (uint (drop_bit 4 v))) :: byte) OR word_of_int (uint (v AND 0xf)) = v"
proof (rule bit_word_eqI)
  fix n assume "n < LENGTH(8)"
  show "bit ((word_of_int (push_bit 4 (uint (drop_bit 4 v))) :: byte) OR word_of_int (uint (v AND 0xf))) n = bit v n"
  proof (cases "n < 4")
    case True
    then show ?thesis by (auto simp: mask4 bit_simps)
  next
    case False
    then have "4 + (n - 4) = n" by simp
    with False show ?thesis by (auto simp: mask4 bit_simps dest: bit_imp_le_length)
  qed
qed

lemma length_decode_pairs: "length (decode_pairs cs) = length cs div 2"
  by (induction cs rule: decode_pairs.induct) auto

lemma fill_valid:
  "\<forall>c \<in> set cs. hex_to_int c \<noteq> - 1 \<Longrightarrow> even (length cs) \<Longrightarrow>
   fill cs (2 * k) msg =
     (None, \<lambda>j. if k \<le> j \<and> j < k + length cs div 2 then decode_pairs cs ! (j - k) else msg j)"
proof (induction cs arbitrary: k msg rule: decode_pairs.induct)
  case (1 c1 c2 cs)
  let ?b = "(word_of_int (push_bit 4 (hex_to_int c1)) :: byte) OR word_of_int (hex_to_int c2)"
  from "1.prems" have v: "hex_to_int c1 \<noteq> - 1" "hex_to_int c2 \<noteq> - 1"
    "\<forall>c \<in> set cs. hex_to_int c \<noteq> - 1" "even (length cs)" by auto
  have "fill (c1 # c2 # cs) (2 * k) msg = fill cs (2 * Suc k) (msg(k := ?b))"
    using v by simp
  also have "\<dots> = (None, \<lambda>j. if Suc k \<le> j \<and> j < Suc k + length cs div 2
                               then decode_pairs cs ! (j - Suc k) else (msg(k := ?b)) j)"
    by (rule "1.IH" [OF v(3,4)])
  also have "(\<lambda>j. if Suc k \<le> j \<and> j < Suc k + length cs div 2
                    then decode_pairs cs ! (j - Suc k) else (msg(k := ?b)) j) =
             (\<lambda>j. if k \<le> j \<and> j < k + length (c1 # c2 # cs) div 2
                    then decode_pairs (c1 # c2 # cs) ! (j - k) else msg j)"
  proof (rule ext)
    fix j
    show "(if Suc k \<le> j \<and> j < Suc k + length cs div 2
                    then decode_pairs cs ! (j - Suc k) else (msg(k := ?b)) j) =
          (if k \<le> j \<and> j < k + length (c1 # c2 # cs) div 2
                    then decode_pairs (c1 # c2 # cs) ! (j - k) else msg j)"
    proof (cases "j = k")
      case True
      then show ?thesis by simp
    next
      case False
      then show ?thesis by (auto simp: nth_Cons' Suc_diff_Suc)
    qed
  qed
  finally show ?case .
qed (auto intro!: ext)

lemma payload_decoded:
  "payload \<lparr>next_n = x, length_n = length cs div 2,
            message = (\<lambda>j. if 0 \<le> j \<and> j < 0 + length cs div 2 then decode_pairs cs ! (j - 0) else junk j)\<rparr>
   = decode_pairs cs"
proof -
  have "map (\<lambda>j. if j < length cs div 2 then decode_pairs cs ! j else junk j) [0..<length cs div 2]
      = map ((!) (decode_pairs cs)) [0..<length cs div 2]"
    by (rule map_cong) simp_all
  also have "\<dots> = decode_pairs cs"
    using map_nth [of "decode_pairs cs"] by (simp add: length_decode_pairs)
  finally show ?thesis
    by (simp add: payload_def cong: if_cong)
qed

lemma uint_nibbles:
  "0 \<le> uint (drop_bit 4 (v :: byte)) \<and> uint (drop_bit 4 (v :: byte)) \<le> 15 \<and>
   0 \<le> uint (v AND 0xf) \<and> uint (v AND 0xf) \<le> 15"
proof -
  have "unat v < 256" using unsigned_less [of v, where 'a = nat] by simp
  then have "unat v div 16 \<le> 15" by simp
  moreover have "unat (drop_bit 4 v) = drop_bit 4 (unat v)" by (rule unat_drop_bit_eq)
  moreover have "drop_bit 4 (unat v) = unat v div 16" by (simp only: drop_bit_eq_div) simp
  ultimately have "unat (drop_bit 4 v) \<le> 15" by linarith
  moreover have "uint (drop_bit 4 v) = int (unat (drop_bit 4 v))" by (rule uint_nat)
  ultimately have a: "uint (drop_bit 4 v) \<le> 15" by linarith
  have "v AND 0xf \<le> 0xf" by (rule word_and_le1)
  then have "uint (v AND 0xf) \<le> 15" by (simp add: word_le_def)
  with a show ?thesis by simp
qed

lemma hex_pair_digits:
  "hex_to_int (int_to_hex (uint (drop_bit 4 (v :: byte)))) = uint (drop_bit 4 v)"
  "hex_to_int (int_to_hex (uint (v AND 0xf))) = uint (v AND 0xf)"
  using uint_nibbles [of v] by (simp_all only: hex_to_int_int_to_hex)

lemma hex_pair_valid: "c \<in> set (hex_pair v) \<Longrightarrow> hex_to_int c \<noteq> - 1"
proof -
  assume "c \<in> set (hex_pair v)"
  then have "c = int_to_hex (uint (drop_bit 4 v)) \<or> c = int_to_hex (uint (v AND 0xf))"
    by (simp add: hex_pair_def)
  then have "hex_to_int c = uint (drop_bit 4 v) \<or> hex_to_int c = uint (v AND 0xf)"
    using hex_pair_digits [of v] by auto
  then show ?thesis
  proof
    assume "hex_to_int c = uint (drop_bit 4 v)"
    moreover have "0 \<le> uint (drop_bit 4 v)" by simp
    ultimately show ?thesis by linarith
  next
    assume "hex_to_int c = uint (v AND 0xf)"
    moreover have "0 \<le> uint (v AND 0xf)" by simp
    ultimately show ?thesis by linarith
  qed
qed

lemma decode_hex_pair: "decode_pairs (hex_pair v @ cs) = v # decode_pairs cs"
  by (simp only: hex_pair_def append_Cons append_Nil decode_pairs.simps hex_pair_digits byte_split)

lemma decode_encode: "decode_pairs (concat (map hex_pair bs)) = bs"
  by (induction bs) (simp_all add: decode_hex_pair)

lemma length_hexline: "length (concat (map hex_pair bs)) = 2 * length bs"
  by (induction bs) (simp_all add: hex_pair_def)

lemma hexline_valid: "\<forall>c \<in> set (concat (map hex_pair bs)). hex_to_int c \<noteq> - 1"
  by (auto dest: hex_pair_valid)

lemma hex_to_int_upper: "hex_to_int (upper_hex c) = hex_to_int c"
proof (cases "97 \<le> (of_char c :: int) \<and> (of_char c :: int) \<le> 102")
  case True
  then have "((of_char c :: int) - 32) mod 256 = of_char c - 32" by simp
  with True show ?thesis by (simp add: hex_to_int_def upper_hex_def)
next
  case False
  then show ?thesis by (auto simp: upper_hex_def)
qed

lemma upper_hex_invalid: "hex_to_int c = - 1 \<Longrightarrow> upper_hex c = c"
  by (auto simp: upper_hex_def hex_to_int_def split: if_splits)

lemma fill_upper: "fill (map upper_hex cs) i msg = fill cs i msg"
  by (induction cs arbitrary: i msg) (simp_all add: hex_to_int_upper upper_hex_invalid)

lemma handle_line_upper: "handle_line nd m s (map upper_hex lin) = handle_line nd m s lin"
  unfolding handle_line_def fill_upper length_map by (rule refl)

section \<open>The byte loop\<close>

lemma feed_bytes_line:
  "CHR 0x0A \<notin> set l \<Longrightarrow> (marker \<longrightarrow> CHR ''X'' \<notin> set l) \<Longrightarrow> length buf \<le> cap - 1 \<Longrightarrow>
   feed_bytes marker cap handle s buf (l @ CHR 0x0A # rest) =
     (case handle s (take (cap - 1) (buf @ l)) of
        Inl e \<Rightarrow> Inl e
      | Inr s' \<Rightarrow> feed_bytes marker cap handle s' [] rest)"
proof (induction l arbitrary: buf)
  case Nil
  then show ?case by simp
next
  case (Cons c l)
  show ?case
  proof (cases "length buf < cap - 1")
    case True
    with Cons.prems Cons.IH [of "buf @ [c]"] show ?thesis by auto
  next
    case False
    with Cons.prems have "length buf = cap - 1" by simp
    then have "take (cap - 1) (buf @ c # l) = take (cap - 1) (buf @ l)" by simp
    with False Cons.prems Cons.IH [of buf] show ?thesis by auto
  qed
qed

lemma feed_bytes_collect:
  "CHR 0x0A \<notin> set l \<Longrightarrow> (marker \<longrightarrow> CHR ''X'' \<notin> set l) \<Longrightarrow> length buf \<le> cap - 1 \<Longrightarrow>
   feed_bytes marker cap handle s buf l = Inr (s, take (cap - 1) (buf @ l))"
proof (induction l arbitrary: buf)
  case Nil
  then show ?case by simp
next
  case (Cons c l)
  show ?case
  proof (cases "length buf < cap - 1")
    case True
    with Cons.prems Cons.IH [of "buf @ [c]"] show ?thesis by auto
  next
    case False
    with Cons.prems have "length buf = cap - 1" by simp
    then have "take (cap - 1) (buf @ c # l) = take (cap - 1) (buf @ l)" by simp
    with False Cons.prems Cons.IH [of buf] show ?thesis by auto
  qed
qed


lemma handle_line_total:
  assumes inv: "queue_inv s as bs" and fresh: "fmlookup (fmdrop_set (set as) (heap s)) a = None"
  shows "\<exists>ds s'. handle_line nd (Some (a, junk)) s lin = Inr (ds, s') \<and> head s' = head s \<and>
     (if odd (length lin) then ds = [BadMessageLength] \<and> queue_inv s' [] bs \<and> tail s' = tail s
      else case find (\<lambda>c. hex_to_int c = - 1) lin of
        Some c \<Rightarrow> ds = [InvalidHexDigit c] \<and> queue_inv s' [] bs \<and> tail s' = tail s
      | None \<Rightarrow> ds = [] \<and> queue_inv s' [] (bs @ [a]) \<and> tail s' = Some a \<and>
          (\<exists>n. fmlookup (heap s') a = Some n \<and> length_n n = length lin div 2 \<and>
               payload n = decode_pairs lin))"
proof (cases "odd (length lin)")
  case True
  with handle_line_odd [OF inv True, of nd] free_excess_inv(2) [OF inv] show ?thesis
    by (intro exI [of _ "[BadMessageLength]"]
          exI [of _ "s\<lparr>malloc_head := head s, heap := fmdrop_set (set as) (heap s)\<rparr>"]) simp
next
  case False
  then have ev: "even (length lin)" by simp
  obtain bad msg where f: "fill lin 0 junk = (bad, msg)" by (cases "fill lin 0 junk")
  then have fnd: "find (\<lambda>c. hex_to_int c = - 1) lin = bad"
    using fill_fst [of lin 0 junk] by simp
  show ?thesis
  proof (cases bad)
    case (Some c)
    with f have f': "fill lin 0 junk = (Some c, msg)" by simp
    from handle_line_invalid(1) [OF inv ev fresh f', of nd] handle_line_invalid(2) [OF inv ev fresh f']
      False fnd Some show ?thesis
      by (intro exI [of _ "[InvalidHexDigit c]"]
          exI [of _ "s\<lparr>malloc_head := head s,
             heap := fmupd a \<lparr>next_n = None, length_n = length lin div 2, message = msg\<rparr>
                       (fmdrop_set (set as) (heap s))\<rparr>"]) simp
  next
    case None
    with fnd have "\<forall>c \<in> set lin. hex_to_int c \<noteq> - 1"
      by (simp add: find_None_iff)
    from fill_valid [OF this ev, of 0 junk] f None
    have msg: "msg = (\<lambda>j. if 0 \<le> j \<and> j < 0 + length lin div 2 then decode_pairs lin ! (j - 0) else junk j)"
      by simp
    from f None have f': "fill lin 0 junk = (None, msg)" by simp
    from handle_line_valid [OF inv ev fresh f', of nd] obtain s' where
      s': "handle_line nd (Some (a, junk)) s lin = Inr ([], s')" "queue_inv s' [] (bs @ [a])"
        "head s' = head s" "tail s' = Some a"
        "fmlookup (heap s') a = Some \<lparr>next_n = None, length_n = length lin div 2, message = msg\<rparr>"
      by blast
    have "payload \<lparr>next_n = None, length_n = length lin div 2, message = msg\<rparr> = decode_pairs lin"
      unfolding msg by (rule payload_decoded)
    with s' False fnd None show ?thesis
      by (intro exI [of _ "[]"] exI [of _ s']) simp
  qed
qed

lemma feed_bytes_no_line:
  "CHR 0x0A \<notin> set l \<Longrightarrow> \<exists>buf'. feed_bytes marker cap handle s buf l = Inr (s, buf')"
  by (induction l arbitrary: buf) auto

lemma run_loop_idle:
  "stdin_fd ls < 0 \<Longrightarrow> \<forall>w \<in> set ws. revents0 w = {} \<and> (0 \<le> status w \<or> eintr w) \<Longrightarrow>
   run_loop marker cap handle ls ws = Continue ls"
proof (induction ws)
  case Nil
  then show ?case by simp
next
  case (Cons w ws)
  then have "loop_iter marker cap handle ls w = Continue ls"
    by (auto simp: loop_iter_def)
  with Cons show ?case by simp
qed

lemma run_loop_append:
  "run_loop marker cap handle ls (xs @ ys) =
     (case run_loop marker cap handle ls xs of
        Continue ls' \<Rightarrow> run_loop marker cap handle ls' ys
      | Break \<Rightarrow> Break
      | Fail \<Rightarrow> Fail
      | Crash e \<Rightarrow> Crash e)"
  by (induction xs arbitrary: ls) (auto split: outcome.splits)

lemma retired_reachable: "reachable nd retired_state"
proof -
  let ?n0 = "\<lparr>next_n = None, length_n = 0, message = (\<lambda>i. 0 :: byte)\<rparr>"
  let ?n1 = "\<lparr>next_n = None, length_n = 1, message = (\<lambda>i. if i < length [0x90 :: byte] then [0x90] ! i else 0)\<rparr>"
  let ?s0 = "\<lparr>port = Some 7, malloc_head = Some 0, head = Some 0, tail = Some 0,
              heap = fmupd 0 ?n0 fmempty\<rparr>"
  let ?h1 = "fmupd 0 (?n0\<lparr>next_n := Some 1\<rparr>) (fmupd 1 ?n1 (fmupd 0 ?n0 fmempty))"
  let ?s1 = "\<lparr>port = Some 7, malloc_head = Some 0, head = Some 0, tail = Some 1, heap = ?h1\<rparr>"
  have "init_state (Some (0, (\<lambda>i. 0))) (Some 7) = Inr ?s0"
    by (simp add: init_state_def node_blank_def node_new_def)
  then have r0: "reachable nd ?s0" by (rule r_init)
  have e: "enqueue nd (Some (1, (\<lambda>i. 0))) ?s0 [0x90] = Inr ?s1"
    by (simp add: enqueue_def node_new_def push_back_def assert_next_null_def)
  have r1: "reachable nd ?s1"
    by (rule r_enqueue [OF r0 _ e]) (simp add: malloc_ok_def)
  have "drain ?h1 (Some 1) [payload ?n1] = Some (Inr (Some 1, [payload ?n1]))"
    by (subst drain.simps) simp
  then have "drain ?h1 (Some 0) [] = Some (Inr (Some 1, [payload ?n1]))"
    by (subst drain.simps) simp
  then have p: "process ?s1 True = Some (Inr (0, [payload ?n1], ?s1\<lparr>head := Some 1\<rparr>))"
    by (simp add: process_def)
  have "reachable nd (?s1\<lparr>head := Some 1\<rparr>)"
    by (rule r_process [OF r1 p])
  then show ?thesis by (simp add: retired_state_def)
qed

lemma retired_inv: "queue_inv retired_state [0] [1]"
  by (simp add: queue_inv_def retired_state_def)

section \<open>Streams of complete lines\<close>









section \<open>The claims\<close>

text \<open>
  C1. A queue that starts with the sentinel node alone receives the messages \<open>ms\<close>
  through \<open>push_back\<close>, each in a node at an address of its own (nothing is freed in
  between, so \<open>malloc\<close> answers with pairwise different addresses, different from the
  sentinel's). One call of \<open>process\<close> afterwards, with the port registered and a buffer
  at hand, returns, emits exactly the payloads of \<open>ms\<close> in the order of enqueueing,
  and leaves \<open>head\<close> at the node enqueued last (at the sentinel if there was none).
\<close>

theorem drain_emits_enqueued:
  assumes "distinct (b # map fst ms)"
  shows "\<exists>s0 s1. init_state (Some (b, junk)) (Some p) = Inr s0 \<and>
           enqueue_all nd s0 ms = Inr s1 \<and>
           process s1 True =
             Some (Inr (0, map (\<lambda>m. snd (snd m)) ms, s1\<lparr>head := Some (last (b # map fst ms))\<rparr>))"
proof -
  let ?s0 = "\<lparr>port = Some p, malloc_head = Some b, head = Some b, tail = Some b,
              heap = fmupd b \<lparr>next_n = None, length_n = 0, message = junk\<rparr> fmempty\<rparr>"
  have i: "init_state (Some (b, junk)) (Some p) = Inr ?s0"
    by (simp add: init_state_def node_blank_def node_new_def)
  then have inv0: "queue_inv ?s0 [] [b]" by (rule queue_inv_init)
  from assms have d: "distinct (map fst ms)"
    and fr: "\<forall>a \<in> set (map fst ms). fmlookup (heap ?s0) a = None"
    by auto
  from enqueue_all_inv [OF inv0 d fr, of nd] obtain s1 where
    s1: "enqueue_all nd ?s0 ms = Inr s1" "queue_inv s1 [] ([b] @ map fst ms)"
      "port s1 = port ?s0"
      "payloads (heap s1) ([b] @ map fst ms) = payloads (heap ?s0) [b] @ map (\<lambda>m. snd (snd m)) ms"
    by blast
  from s1(3) have p1: "port s1 \<noteq> None" by simp
  from s1(4) have pl: "payloads (heap s1) (map fst ms) = map (\<lambda>m. snd (snd m)) ms"
    by (simp add: payloads_def)
  from process_inv [OF s1(2) p1] pl
  have "process s1 True =
      Some (Inr (0, map (\<lambda>m. snd (snd m)) ms, s1\<lparr>head := Some (last (b # map fst ms))\<rparr>))"
    by simp
  with i s1(1) show ?thesis by blast
qed

theorem drain_emits_enqueued_witness:
  "distinct ((0::addr) # map fst [(1, (\<lambda>i. 0), [0x90, 0x40, 0x00 :: byte]), (2, (\<lambda>i. 0), [])]) \<and>
   (\<exists>s0 s1. init_state (Some (0, (\<lambda>i. 0))) (Some 7) = Inr s0 \<and>
      enqueue_all True s0 [(1, (\<lambda>i. 0), [0x90, 0x40, 0x00]), (2, (\<lambda>i. 0), [])] = Inr s1 \<and>
      process s1 True = Some (Inr (0, [[0x90, 0x40, 0x00], []], s1\<lparr>head := Some 2\<rparr>)))"
  using drain_emits_enqueued [of 0 "[(1, (\<lambda>i. 0), [0x90, 0x40, 0x00 :: byte]), (2, (\<lambda>i. 0), [])]" "\<lambda>i. 0" 7 True]
  by simp

text \<open>
  C2. In every state the program can reach (any sequence of lines handled, messages
  enqueued, \<open>process\<close> calls and reclaimer runs), \<open>free_excess\<close> returns; it frees
  exactly the nodes \<open>as\<close> on the way from \<open>malloc_head\<close> to the loaded \<open>head\<close>, that
  node not included, and sets \<open>malloc_head\<close> to \<open>head\<close>. Every node that can be reached
  from \<open>head\<close> is none of the freed ones, is still allocated afterwards and is
  unchanged.
\<close>

theorem free_excess_reclaims:
  assumes "reachable nd s"
  shows "\<exists>as. path (heap s) (malloc_head s) as (head s) \<and> head s \<notin> Some ` set as \<and>
           free_excess nd s = Inr (s\<lparr>malloc_head := head s, heap := fmdrop_set (set as) (heap s)\<rparr>) \<and>
           (\<forall>xs q. path (heap s) (head s) xs q \<longrightarrow>
              (\<forall>x \<in> set xs. x \<notin> set as \<and>
                 fmlookup (fmdrop_set (set as) (heap s)) x = fmlookup (heap s) x \<and>
                 fmlookup (heap s) x \<noteq> None))"
proof -
  from assms obtain as bs where inv: "queue_inv s as bs"
    using reachable_inv by blast
  from inv have ne: "bs \<noteq> []" and d: "distinct (as @ bs)"
    and p1: "path (heap s) (malloc_head s) as (head s)"
    and p2: "path (heap s) (head s) bs None"
    by (auto simp: queue_inv_def)
  from inv have h: "head s = Some (hd bs)" by (rule queue_inv_head)
  with ne d have nh: "head s \<notin> Some ` set as" by (cases bs) auto
  have safe: "\<forall>xs q. path (heap s) (head s) xs q \<longrightarrow>
              (\<forall>x \<in> set xs. x \<notin> set as \<and>
                 fmlookup (fmdrop_set (set as) (heap s)) x = fmlookup (heap s) x \<and>
                 fmlookup (heap s) x \<noteq> None)"
  proof (intro allI impI ballI)
    fix xs q x assume px: "path (heap s) (head s) xs q" and x: "x \<in> set xs"
    from path_prefix [OF px p2] obtain ys where "bs = xs @ ys" by blast
    with x have "x \<in> set bs" by simp
    with d have xa: "x \<notin> set as" by auto
    moreover from px x have "fmlookup (heap s) x \<noteq> None" by (rule path_allocated)
    ultimately show "x \<notin> set as \<and>
                 fmlookup (fmdrop_set (set as) (heap s)) x = fmlookup (heap s) x \<and>
                 fmlookup (heap s) x \<noteq> None" by simp
  qed
  from p1 nh free_excess_inv(1) [OF inv, of nd] safe show ?thesis by blast
qed

theorem free_excess_reclaims_witness:
  "\<exists>s. reachable True s \<and> malloc_head s = Some 0 \<and> head s = Some 1 \<and>
     (\<exists>as. path (heap s) (malloc_head s) as (head s) \<and> head s \<notin> Some ` set as \<and>
           free_excess True s = Inr (s\<lparr>malloc_head := head s, heap := fmdrop_set (set as) (heap s)\<rparr>) \<and>
           (\<forall>xs q. path (heap s) (head s) xs q \<longrightarrow>
              (\<forall>x \<in> set xs. x \<notin> set as \<and>
                 fmlookup (fmdrop_set (set as) (heap s)) x = fmlookup (heap s) x \<and>
                 fmlookup (heap s) x \<noteq> None)))"
proof -
  let ?n0 = "\<lparr>next_n = None, length_n = 0, message = (\<lambda>i. 0 :: byte)\<rparr>"
  let ?n1 = "\<lparr>next_n = None, length_n = 1, message = (\<lambda>i. if i < length [0x90 :: byte] then [0x90] ! i else 0)\<rparr>"
  let ?s0 = "\<lparr>port = Some 7, malloc_head = Some 0, head = Some 0, tail = Some 0,
              heap = fmupd 0 ?n0 fmempty\<rparr>"
  let ?h1 = "fmupd 0 (?n0\<lparr>next_n := Some 1\<rparr>) (fmupd 1 ?n1 (fmupd 0 ?n0 fmempty))"
  let ?s1 = "\<lparr>port = Some 7, malloc_head = Some 0, head = Some 0, tail = Some 1, heap = ?h1\<rparr>"
  let ?s2 = "?s1\<lparr>head := Some 1\<rparr>"
  have "init_state (Some (0, (\<lambda>i. 0))) (Some 7) = Inr ?s0"
    by (simp add: init_state_def node_blank_def node_new_def)
  then have r0: "reachable True ?s0" by (rule r_init)
  have e: "enqueue True (Some (1, (\<lambda>i. 0))) ?s0 [0x90] = Inr ?s1"
    by (simp add: enqueue_def node_new_def push_back_def)
  have r1: "reachable True ?s1"
    by (rule r_enqueue [OF r0 _ e]) (simp add: malloc_ok_def)
  have "drain ?h1 (Some 1) [payload ?n1] = Some (Inr (Some 1, [payload ?n1]))"
    by (subst drain.simps) simp
  then have "drain ?h1 (Some 0) [] = Some (Inr (Some 1, [payload ?n1]))"
    by (subst drain.simps) simp
  then have p: "process ?s1 True = Some (Inr (0, [payload ?n1], ?s2))"
    by (simp add: process_def)
  have r2: "reachable True ?s2"
    by (rule r_process [OF r1 p])
  from free_excess_reclaims [OF r2] r2 show ?thesis
    by (intro exI [of _ ?s2]) simp
qed

text \<open>
  C4. The line that encodes the bytes \<open>msg\<close> is two hex digits per byte, and the
  encoder ends it with one line feed. Handed to \<open>handle_line\<close> (queue in order, \<open>malloc\<close>
  answering with a free address), it is accepted without a diagnostic and the node
  linked at the tail carries exactly \<open>msg\<close>. An upper-case hex letter has the value of
  its lower-case form, and a line decodes the same with its letters in upper case. A
  line of odd length yields the diagnostic for a bad length and no node: the tail and
  the nodes of the queue stay, and nothing is allocated.
\<close>

theorem hex_round_trip:
  assumes inv: "queue_inv s as bs"
    and fresh: "fmlookup (fmdrop_set (set as) (heap s)) a = None"
  shows "encode_event msg = concat (map hex_pair msg) @ [CHR 0x0A] \<and>
     (\<exists>s' n. handle_line nd (Some (a, junk)) s (concat (map hex_pair msg)) = Inr ([], s') \<and>
        tail s' = Some a \<and> queue_inv s' [] (bs @ [a]) \<and>
        fmlookup (heap s') a = Some n \<and> payload n = msg) \<and>
     hex_to_int (upper_hex c) = hex_to_int c \<and>
     handle_line nd m s (map upper_hex lin) = handle_line nd m s lin \<and>
     (odd (length lin) \<longrightarrow>
        (\<exists>s'. handle_line nd m s lin = Inr ([BadMessageLength], s') \<and>
           tail s' = tail s \<and> queue_inv s' [] bs \<and>
           heap s' = fmdrop_set (set as) (heap s)))"
proof -
  let ?lin = "concat (map hex_pair msg)"
  have ev: "\<not> odd (length ?lin)" by (simp add: length_hexline)
  have fnd: "find (\<lambda>c. hex_to_int c = - 1) ?lin = None"
    unfolding find_None_iff using hexline_valid [of msg] by blast
  from handle_line_total [OF inv fresh, of nd junk ?lin] ev fnd
  have rt: "\<exists>s' n. handle_line nd (Some (a, junk)) s ?lin = Inr ([], s') \<and>
        tail s' = Some a \<and> queue_inv s' [] (bs @ [a]) \<and>
        fmlookup (heap s') a = Some n \<and> payload n = msg"
    by (auto simp: decode_encode)
  have od: "odd (length lin) \<longrightarrow>
        (\<exists>s'. handle_line nd m s lin = Inr ([BadMessageLength], s') \<and>
           tail s' = tail s \<and> queue_inv s' [] bs \<and>
           heap s' = fmdrop_set (set as) (heap s))"
  proof
    assume o: "odd (length lin)"
    from handle_line_odd [OF inv o, of nd m] free_excess_inv(2) [OF inv]
    show "\<exists>s'. handle_line nd m s lin = Inr ([BadMessageLength], s') \<and>
           tail s' = tail s \<and> queue_inv s' [] bs \<and>
           heap s' = fmdrop_set (set as) (heap s)"
      by (intro exI [of _ "s\<lparr>malloc_head := head s, heap := fmdrop_set (set as) (heap s)\<rparr>"]) simp
  qed
  show ?thesis
    using rt od by (simp add: encode_event_def hex_to_int_upper handle_line_upper)
qed

theorem hex_round_trip_witness:
  "queue_inv sentinel_state [] [0] \<and>
   fmlookup (fmdrop_set (set []) (heap sentinel_state)) 1 = None \<and>
   odd (length ''9a4'') \<and>
   encode_event [0x9a, 0x40] = concat (map hex_pair [0x9a, 0x40]) @ [CHR 0x0A] \<and>
   (\<exists>s' n. handle_line True (Some (1, (\<lambda>i. 0))) sentinel_state (concat (map hex_pair [0x9a, 0x40])) = Inr ([], s') \<and>
      tail s' = Some 1 \<and> queue_inv s' [] ([0] @ [1]) \<and>
      fmlookup (heap s') 1 = Some n \<and> payload n = [0x9a, 0x40]) \<and>
   hex_to_int (upper_hex (CHR ''a'')) = hex_to_int (CHR ''a'') \<and>
   handle_line True None sentinel_state (map upper_hex ''9a4'') = handle_line True None sentinel_state ''9a4'' \<and>
   (\<exists>s'. handle_line True None sentinel_state ''9a4'' = Inr ([BadMessageLength], s') \<and>
      tail s' = tail sentinel_state \<and> queue_inv s' [] [0] \<and>
      heap s' = fmdrop_set (set []) (heap sentinel_state))"
proof -
  have h1: "queue_inv sentinel_state [] [0]"
    by (simp add: queue_inv_def sentinel_state_def)
  have h2: "fmlookup (fmdrop_set (set []) (heap sentinel_state)) 1 = None"
    by (simp add: sentinel_state_def)
  have h3: "odd (length ''9a4'')" by simp
  note t = hex_round_trip [where msg = "[0x9a, 0x40]" and nd = True and junk = "\<lambda>i. 0"
      and c = "CHR ''a''" and m = None and lin = "''9a4''", OF h1 h2]
  note t1 = t [THEN conjunct1]
  note t2 = t [THEN conjunct2, THEN conjunct1]
  note t3 = t [THEN conjunct2, THEN conjunct2, THEN conjunct1]
  note t4 = t [THEN conjunct2, THEN conjunct2, THEN conjunct2, THEN conjunct1]
  note t5 = mp [OF t [THEN conjunct2, THEN conjunct2, THEN conjunct2, THEN conjunct2] h3]
  show ?thesis
    by (rule conjI [OF h1 conjI [OF h2 conjI [OF h3 conjI [OF t1 conjI [OF t2
          conjI [OF t3 conjI [OF t4 t5]]]]]]])
qed

text \<open>
  C5. Whatever the line, \<open>handle_line\<close> returns (queue in order, \<open>malloc\<close> answering
  with a free address): a line of odd length gives the diagnostic for a bad length and
  no message; otherwise the first character that is no hex digit gives the diagnostic
  naming it and no message; otherwise there is no diagnostic and the node linked at the
  tail holds one byte per two characters. In each case the queue is in order
  afterwards, and when the line came from the input stream (no line feed or marker in
  it, within the buffer), the bytes after its line feed are processed next, from the
  state the line left and an empty buffer.
\<close>

theorem decode_errors_continue:
  assumes inv: "queue_inv (queue w) as bs"
    and m: "alloc (nlines w) = Some (a, junk)"
    and fresh: "fmlookup (fmdrop_set (set as) (heap (queue w))) a = None"
  shows "\<exists>ds s'. handle_line nd (Some (a, junk)) (queue w) lin = Inr (ds, s') \<and>
     head s' = head (queue w) \<and>
     (if odd (length lin) then ds = [BadMessageLength] \<and> queue_inv s' [] bs \<and> tail s' = tail (queue w)
      else case find (\<lambda>c. hex_to_int c = - 1) lin of
        Some c \<Rightarrow> ds = [InvalidHexDigit c] \<and> queue_inv s' [] bs \<and> tail s' = tail (queue w)
      | None \<Rightarrow> ds = [] \<and> queue_inv s' [] (bs @ [a]) \<and> tail s' = Some a \<and>
          (\<exists>n. fmlookup (heap s') a = Some n \<and> length_n n = length lin div 2 \<and>
               payload n = decode_pairs lin)) \<and>
     (CHR 0x0A \<notin> set lin \<and> CHR ''X'' \<notin> set lin \<and> length lin \<le> 1023 \<longrightarrow>
        midi_feed nd alloc w [] (lin @ CHR 0x0A # rest) =
        midi_feed nd alloc \<lparr>queue = s', nlines = Suc (nlines w), stderr_m = stderr_m w @ ds\<rparr> [] rest)"
proof -
  from handle_line_total [OF inv fresh, of nd junk lin] obtain ds s' where
    hl: "handle_line nd (Some (a, junk)) (queue w) lin = Inr (ds, s')"
    and rest: "head s' = head (queue w) \<and>
     (if odd (length lin) then ds = [BadMessageLength] \<and> queue_inv s' [] bs \<and> tail s' = tail (queue w)
      else case find (\<lambda>c. hex_to_int c = - 1) lin of
        Some c \<Rightarrow> ds = [InvalidHexDigit c] \<and> queue_inv s' [] bs \<and> tail s' = tail (queue w)
      | None \<Rightarrow> ds = [] \<and> queue_inv s' [] (bs @ [a]) \<and> tail s' = Some a \<and>
          (\<exists>n. fmlookup (heap s') a = Some n \<and> length_n n = length lin div 2 \<and>
               payload n = decode_pairs lin))"
    by blast
  have ml: "midi_line nd alloc w lin =
      Inr \<lparr>queue = s', nlines = Suc (nlines w), stderr_m = stderr_m w @ ds\<rparr>"
    using hl m by (simp add: midi_line_def)
  have "CHR 0x0A \<notin> set lin \<and> CHR ''X'' \<notin> set lin \<and> length lin \<le> 1023 \<longrightarrow>
        midi_feed nd alloc w [] (lin @ CHR 0x0A # rest) =
        midi_feed nd alloc \<lparr>queue = s', nlines = Suc (nlines w), stderr_m = stderr_m w @ ds\<rparr> [] rest"
  proof
    assume a: "CHR 0x0A \<notin> set lin \<and> CHR ''X'' \<notin> set lin \<and> length lin \<le> 1023"
    then have "feed_bytes True 1024 (midi_line nd alloc) w [] (lin @ CHR 0x0A # rest) =
        (case midi_line nd alloc w (take (1024 - 1) ([] @ lin)) of
           Inl e \<Rightarrow> Inl e
         | Inr s' \<Rightarrow> feed_bytes True 1024 (midi_line nd alloc) s' [] rest)"
      by (intro feed_bytes_line) simp_all
    with a ml show "midi_feed nd alloc w [] (lin @ CHR 0x0A # rest) =
        midi_feed nd alloc \<lparr>queue = s', nlines = Suc (nlines w), stderr_m = stderr_m w @ ds\<rparr> [] rest"
      by (simp add: midi_feed_def)
  qed
  note feed = this
  note r1 = conjunct1 [OF rest] and r2 = conjunct2 [OF rest]
  show ?thesis
    by (rule exI [of _ ds], rule exI [of _ s'], rule conjI [OF hl conjI [OF r1 conjI [OF r2 feed]]])
qed

theorem decode_errors_continue_witness:
  "queue_inv (queue sentinel_world) [] [0] \<and>
   alloc_next (nlines sentinel_world) = Some (1, (\<lambda>i. 0)) \<and>
   fmlookup (fmdrop_set (set []) (heap (queue sentinel_world))) 1 = None \<and>
   (CHR 0x0A \<notin> set ''9g'' \<and> CHR ''X'' \<notin> set ''9g'' \<and> length ''9g'' \<le> 1023) \<and>
   (\<exists>ds s'. handle_line True (Some (1, (\<lambda>i. 0))) (queue sentinel_world) ''9g'' = Inr (ds, s') \<and>
     head s' = head (queue sentinel_world) \<and>
     (if odd (length ''9g'') then ds = [BadMessageLength] \<and> queue_inv s' [] [0] \<and> tail s' = tail (queue sentinel_world)
      else case find (\<lambda>c. hex_to_int c = - 1) ''9g'' of
        Some c \<Rightarrow> ds = [InvalidHexDigit c] \<and> queue_inv s' [] [0] \<and> tail s' = tail (queue sentinel_world)
      | None \<Rightarrow> ds = [] \<and> queue_inv s' [] ([0] @ [1]) \<and> tail s' = Some 1 \<and>
          (\<exists>n. fmlookup (heap s') 1 = Some n \<and> length_n n = length ''9g'' div 2 \<and>
               payload n = decode_pairs ''9g'')) \<and>
     (CHR 0x0A \<notin> set ''9g'' \<and> CHR ''X'' \<notin> set ''9g'' \<and> length ''9g'' \<le> 1023 \<longrightarrow>
        midi_feed True alloc_next sentinel_world [] (''9g'' @ CHR 0x0A # ''9040'') =
        midi_feed True alloc_next \<lparr>queue = s', nlines = Suc (nlines sentinel_world), stderr_m = stderr_m sentinel_world @ ds\<rparr> [] ''9040''))"
proof -
  have h1: "queue_inv (queue sentinel_world) [] [0]"
    by (simp add: queue_inv_def sentinel_world_def sentinel_state_def)
  have h2: "alloc_next (nlines sentinel_world) = Some (1, (\<lambda>i. 0))"
    by (simp add: alloc_next_def sentinel_world_def)
  have h3: "fmlookup (fmdrop_set (set []) (heap (queue sentinel_world))) 1 = None"
    by (simp add: sentinel_world_def sentinel_state_def)
  have h4: "CHR 0x0A \<notin> set ''9g'' \<and> CHR ''X'' \<notin> set ''9g'' \<and> length ''9g'' \<le> 1023"
    by simp
  show ?thesis
    by (rule conjI [OF h1 conjI [OF h2 conjI [OF h3 conjI [OF h4
          decode_errors_continue [where alloc = alloc_next and w = sentinel_world, OF h1 h2 h3]]]]])
qed

text \<open>
  C8. While a line is collected (no line feed, and for jack-stdin-to-midi.c no marker,
  among the bytes \<open>l\<close>), the loop keeps the first 127 bytes (cv.c) or 1023 bytes
  (jack-stdin-to-midi.c) and drops the rest: it returns, and the program state with its
  \<open>stderr\<close> is as before. When the line feed arrives, the line handler gets the
  bytes kept, and the loop goes on behind the line feed with an empty buffer.
\<close>

theorem long_line_truncated:
  assumes "CHR 0x0A \<notin> set l"
  shows "cv_feed clamp strtof cw [] l = Inr (cw, take 127 l) \<and>
         cv_feed clamp strtof cw [] (l @ CHR 0x0A # rest) =
           (case cv_line clamp strtof cw (take 127 l) of
              Inl e \<Rightarrow> Inl e
            | Inr cw' \<Rightarrow> cv_feed clamp strtof cw' [] rest) \<and>
         (CHR ''X'' \<notin> set l \<longrightarrow>
            midi_feed nd alloc mw [] l = Inr (mw, take 1023 l) \<and>
            midi_feed nd alloc mw [] (l @ CHR 0x0A # rest) =
              (case midi_line nd alloc mw (take 1023 l) of
                 Inl e \<Rightarrow> Inl e
               | Inr mw' \<Rightarrow> midi_feed nd alloc mw' [] rest))"
proof -
  have c1: "feed_bytes False 128 (cv_line clamp strtof) cw [] l = Inr (cw, take (128 - 1) ([] @ l))"
    using assms by (intro feed_bytes_collect) simp_all
  have c2: "feed_bytes False 128 (cv_line clamp strtof) cw [] (l @ CHR 0x0A # rest) =
      (case cv_line clamp strtof cw (take (128 - 1) ([] @ l)) of
         Inl e \<Rightarrow> Inl e
       | Inr cw' \<Rightarrow> feed_bytes False 128 (cv_line clamp strtof) cw' [] rest)"
    using assms by (intro feed_bytes_line) simp_all
  have m: "CHR ''X'' \<notin> set l \<longrightarrow>
            midi_feed nd alloc mw [] l = Inr (mw, take 1023 l) \<and>
            midi_feed nd alloc mw [] (l @ CHR 0x0A # rest) =
              (case midi_line nd alloc mw (take 1023 l) of
                 Inl e \<Rightarrow> Inl e
               | Inr mw' \<Rightarrow> midi_feed nd alloc mw' [] rest)"
  proof
    assume x: "CHR ''X'' \<notin> set l"
    have m1: "feed_bytes True 1024 (midi_line nd alloc) mw [] l = Inr (mw, take (1024 - 1) ([] @ l))"
      using assms x by (intro feed_bytes_collect) simp_all
    have m2: "feed_bytes True 1024 (midi_line nd alloc) mw [] (l @ CHR 0x0A # rest) =
      (case midi_line nd alloc mw (take (1024 - 1) ([] @ l)) of
         Inl e \<Rightarrow> Inl e
       | Inr mw' \<Rightarrow> feed_bytes True 1024 (midi_line nd alloc) mw' [] rest)"
      using assms x by (intro feed_bytes_line) simp_all
    from m1 m2 show "midi_feed nd alloc mw [] l = Inr (mw, take 1023 l) \<and>
            midi_feed nd alloc mw [] (l @ CHR 0x0A # rest) =
              (case midi_line nd alloc mw (take 1023 l) of
                 Inl e \<Rightarrow> Inl e
               | Inr mw' \<Rightarrow> midi_feed nd alloc mw' [] rest)"
      unfolding midi_feed_def by simp
  qed
  from c1 c2 m show ?thesis
    unfolding cv_feed_def by simp
qed

theorem long_line_truncated_witness:
  "CHR 0x0A \<notin> set (replicate 1030 (CHR ''9'')) \<and>
   CHR ''X'' \<notin> set (replicate 1030 (CHR ''9'')) \<and>
   cv_feed True strtof_sample (inner cv_start) [] (replicate 1030 (CHR ''9'')) =
     Inr (inner cv_start, take 127 (replicate 1030 (CHR ''9''))) \<and>
   cv_feed True strtof_sample (inner cv_start) [] (replicate 1030 (CHR ''9'') @ CHR 0x0A # ''0.5'') =
     (case cv_line True strtof_sample (inner cv_start) (take 127 (replicate 1030 (CHR ''9''))) of
        Inl e \<Rightarrow> Inl e
      | Inr cw' \<Rightarrow> cv_feed True strtof_sample cw' [] ''0.5'') \<and>
   midi_feed True alloc_next sentinel_world [] (replicate 1030 (CHR ''9'')) =
     Inr (sentinel_world, take 1023 (replicate 1030 (CHR ''9''))) \<and>
   midi_feed True alloc_next sentinel_world [] (replicate 1030 (CHR ''9'') @ CHR 0x0A # ''0.5'') =
     (case midi_line True alloc_next sentinel_world (take 1023 (replicate 1030 (CHR ''9''))) of
        Inl e \<Rightarrow> Inl e
      | Inr mw' \<Rightarrow> midi_feed True alloc_next mw' [] ''0.5'')"
proof -
  have h: "CHR 0x0A \<notin> set (replicate 1030 (CHR ''9''))" by simp
  have x: "CHR ''X'' \<notin> set (replicate 1030 (CHR ''9''))" by simp
  note t = long_line_truncated [where clamp = True and strtof = strtof_sample
      and cw = "inner cv_start" and rest = "''0.5''" and nd = True and alloc = alloc_next
      and mw = sentinel_world, OF h]
  note t1 = t [THEN conjunct1]
  note t2 = t [THEN conjunct2, THEN conjunct1]
  note t3 = mp [OF t [THEN conjunct2, THEN conjunct2] x]
  show ?thesis
    by (rule conjI [OF h conjI [OF x conjI [OF t1 conjI [OF t2 t3]]]])
qed



text \<open>
  C10. As stated, the claim fails: \<open>handle_line\<close> of cv.c also rejects a line as
  unparsable when \<open>strtof\<close> has converted an initial literal and set \<open>errno\<close>. On
  \<open>1e99\<close> the C standard has \<open>strtof\<close> consume the four characters, return the
  infinite value and set \<open>errno\<close> to \<open>ERANGE\<close>; the line is rejected as unparsable and
  the cell keeps its value.
\<close>

theorem scalar_range_error_counterexample:
  "sr_endptr (strtof_sample ''1e99'') = Some 4 \<and>
   handle_line_cv False strtof_sample \<lparr>port_cv = Some 7, value_cv = Fin (1 / 4)\<rparr> ''1e99'' =
     ([CouldNotParse], \<lparr>port_cv = Some 7, value_cv = Fin (1 / 4)\<rparr>)"
  by (simp add: handle_line_cv_def strtof_sample_def)

text \<open>
  C10, amended. A line is rejected as unparsable exactly when \<open>strtof\<close> converts nothing
  (\<open>endptr\<close> at the start of the line, or \<open>NULL\<close>) or sets \<open>errno\<close>. Otherwise, when
  \<open>strtof\<close> has converted an initial literal of \<open>k\<close> characters to a number \<open>r\<close> without
  setting \<open>errno\<close>, the line is accepted whatever follows the literal: the handler does
  not look behind it. The build without clamping stores \<open>r\<close>; the build with clamping
  stores \<open>r\<close> brought into the interval from 0 to 1.
\<close>

theorem scalar_prefix_accepted:
  "(fst (handle_line_cv clamp strtof s lin) = [CouldNotParse] \<longleftrightarrow>
      sr_endptr (strtof lin) = None \<or> sr_endptr (strtof lin) = Some 0 \<or> sr_errno (strtof lin) \<noteq> 0) \<and>
   (sr_endptr (strtof lin) = Some k \<and> 0 < k \<and> sr_errno (strtof lin) = 0 \<and>
    sr_value (strtof lin) = Fin r \<longrightarrow>
      handle_line_cv False strtof s lin = ([], s\<lparr>value_cv := Fin r\<rparr>) \<and>
      value_cv (snd (handle_line_cv True strtof s lin)) = Fin (max 0 (min 1 r)))"
  by (auto simp: handle_line_cv_def Let_def)

theorem scalar_prefix_accepted_witness:
  "(sr_endptr (strtof_sample ''0.5abc'') = Some 3 \<and> (0::nat) < 3 \<and>
    sr_errno (strtof_sample ''0.5abc'') = 0 \<and> sr_value (strtof_sample ''0.5abc'') = Fin (1 / 2)) \<and>
   handle_line_cv False strtof_sample \<lparr>port_cv = Some 7, value_cv = Fin (1 / 4)\<rparr> ''0.5abc'' =
     ([], \<lparr>port_cv = Some 7, value_cv = Fin (1 / 4)\<rparr>\<lparr>value_cv := Fin (1 / 2)\<rparr>) \<and>
   value_cv (snd (handle_line_cv True strtof_sample \<lparr>port_cv = Some 7, value_cv = Fin (1 / 4)\<rparr> ''0.5abc'')) =
     Fin (max 0 (min 1 (1 / 2)))"
proof -
  have h: "sr_endptr (strtof_sample ''0.5abc'') = Some 3 \<and> (0::nat) < 3 \<and>
    sr_errno (strtof_sample ''0.5abc'') = 0 \<and> sr_value (strtof_sample ''0.5abc'') = Fin (1 / 2)"
    by (simp add: strtof_sample_def)
  show ?thesis
    by (rule conjI [OF h mp [OF conjunct2
          [OF scalar_prefix_accepted [where strtof = strtof_sample and lin = "''0.5abc''"]] h]])
qed

text \<open>
  C7. The event loop of cv.c and of jack-stdin-to-midi.c (the same loop, for any buffer
  size, marker setting and line handler), one round and the whole run over the wakes
  that follow. When \<open>poll\<close> reports an event on the shutdown descriptor, the round reads
  no input and the loop is left at once, whatever wakes would follow: by \<open>break\<close>, or
  through the failure exit if \<open>POLLNVAL\<close> is among the events. End of file on the
  input, whether \<open>read\<close> returns 0 after the bytes of this wake or \<open>poll\<close> reports a
  hang-up without data, sets the descriptor to -1 and the loop goes on with the wakes
  that follow. Once the descriptor is -1, a round reads nothing and leaves the state as
  it is; the loop keeps running through any rounds without a shutdown event or \<open>poll\<close>
  failure, and a shutdown event after them ends it.
\<close>

theorem shutdown_first_eof_keeps_running:
  "(status wk > 0 \<and> revents0 wk \<noteq> {} \<longrightarrow>
      loop_iter marker cap handle ls wk =
        (if POLLNVAL \<in> revents0 wk \<or> (0 \<le> stdin_fd ls \<and> POLLNVAL \<in> revents1 wk) then Fail else Break) \<and>
      run_loop marker cap handle ls (wk # ws) =
        (if POLLNVAL \<in> revents0 wk \<or> (0 \<le> stdin_fd ls \<and> POLLNVAL \<in> revents1 wk) then Fail else Break)) \<and>
   (status wk > 0 \<and> revents0 wk = {} \<and> 0 \<le> stdin_fd ls \<and> POLLIN \<in> revents1 wk \<and>
    POLLNVAL \<notin> revents1 wk \<and> eof wk \<and>
    read_loop marker cap handle (inner ls) (line_buf ls) (chunks wk) = Inr (s', lin') \<longrightarrow>
      loop_iter marker cap handle ls wk =
        Continue (ls\<lparr>inner := s', line_buf := lin', stdin_fd := - 1\<rparr>) \<and>
      run_loop marker cap handle ls (wk # ws) =
        run_loop marker cap handle (ls\<lparr>inner := s', line_buf := lin', stdin_fd := - 1\<rparr>) ws) \<and>
   (status wk > 0 \<and> revents0 wk = {} \<and> 0 \<le> stdin_fd ls \<and> POLLIN \<notin> revents1 wk \<and>
    revents1 wk \<noteq> {} \<and> POLLNVAL \<notin> revents1 wk \<longrightarrow>
      loop_iter marker cap handle ls wk = Continue (ls\<lparr>stdin_fd := - 1\<rparr>) \<and>
      run_loop marker cap handle ls (wk # ws) =
        run_loop marker cap handle (ls\<lparr>stdin_fd := - 1\<rparr>) ws) \<and>
   (stdin_fd ls < 0 \<longrightarrow> loop_iter marker cap handle ls wk \<in> {Continue ls, Break, Fail}) \<and>
   (stdin_fd ls < 0 \<and> (\<forall>w \<in> set ws. revents0 w = {} \<and> (0 \<le> status w \<or> eintr w)) \<longrightarrow>
      run_loop marker cap handle ls ws = Continue ls \<and>
      (status wk > 0 \<and> revents0 wk \<noteq> {} \<and> POLLNVAL \<notin> revents0 wk \<longrightarrow>
         run_loop marker cap handle ls (ws @ [wk]) = Break))"
proof (intro conjI impI)
  assume a: "status wk > 0 \<and> revents0 wk \<noteq> {}"
  then show i: "loop_iter marker cap handle ls wk =
        (if POLLNVAL \<in> revents0 wk \<or> (0 \<le> stdin_fd ls \<and> POLLNVAL \<in> revents1 wk) then Fail else Break)"
    by (auto simp: loop_iter_def)
  then show "run_loop marker cap handle ls (wk # ws) =
        (if POLLNVAL \<in> revents0 wk \<or> (0 \<le> stdin_fd ls \<and> POLLNVAL \<in> revents1 wk) then Fail else Break)"
    by simp
next
  assume "status wk > 0 \<and> revents0 wk = {} \<and> 0 \<le> stdin_fd ls \<and> POLLIN \<in> revents1 wk \<and>
    POLLNVAL \<notin> revents1 wk \<and> eof wk \<and>
    read_loop marker cap handle (inner ls) (line_buf ls) (chunks wk) = Inr (s', lin')"
  then show "loop_iter marker cap handle ls wk =
        Continue (ls\<lparr>inner := s', line_buf := lin', stdin_fd := - 1\<rparr>)"
    by (simp add: loop_iter_def)
  then show "run_loop marker cap handle ls (wk # ws) =
        run_loop marker cap handle (ls\<lparr>inner := s', line_buf := lin', stdin_fd := - 1\<rparr>) ws"
    by simp
next
  assume "status wk > 0 \<and> revents0 wk = {} \<and> 0 \<le> stdin_fd ls \<and> POLLIN \<notin> revents1 wk \<and>
    revents1 wk \<noteq> {} \<and> POLLNVAL \<notin> revents1 wk"
  then show "loop_iter marker cap handle ls wk = Continue (ls\<lparr>stdin_fd := - 1\<rparr>)"
    by (simp add: loop_iter_def)
  then show "run_loop marker cap handle ls (wk # ws) =
        run_loop marker cap handle (ls\<lparr>stdin_fd := - 1\<rparr>) ws"
    by simp
next
  assume "stdin_fd ls < 0"
  then show "loop_iter marker cap handle ls wk \<in> {Continue ls, Break, Fail}"
    by (auto simp: loop_iter_def Let_def)
next
  assume b: "stdin_fd ls < 0 \<and> (\<forall>w \<in> set ws. revents0 w = {} \<and> (0 \<le> status w \<or> eintr w))"
  then show c: "run_loop marker cap handle ls ws = Continue ls"
    by (simp add: run_loop_idle)
  assume d: "status wk > 0 \<and> revents0 wk \<noteq> {} \<and> POLLNVAL \<notin> revents0 wk"
  with b have "loop_iter marker cap handle ls wk = Break"
    by (auto simp: loop_iter_def)
  with c show "run_loop marker cap handle ls (ws @ [wk]) = Break"
    by (simp add: run_loop_append)
qed

theorem shutdown_first_eof_keeps_running_witness:
  "run_loop False 128 (cv_line True strtof_sample) cv_start
      [\<lparr>status = 2, eintr = False, revents0 = {POLLHUP}, revents1 = {POLLIN},
        chunks = [''0.5'' @ [CHR 0x0A]], eof = False\<rparr>,
       \<lparr>status = 1, eintr = False, revents0 = {}, revents1 = {POLLIN},
        chunks = [''1.5'' @ [CHR 0x0A]], eof = False\<rparr>] = Break \<and>
   loop_iter False 128 (cv_line True strtof_sample) cv_start
      \<lparr>status = 1, eintr = False, revents0 = {}, revents1 = {POLLIN},
       chunks = [''0.5'' @ [CHR 0x0A]], eof = True\<rparr> =
      Continue (cv_start\<lparr>inner := \<lparr>cell = \<lparr>port_cv = Some 7, value_cv = Fin (1 / 2)\<rparr>, stderr_cv = []\<rparr>,
                         line_buf := [], stdin_fd := - 1\<rparr>) \<and>
   run_loop False 128 (cv_line True strtof_sample) cv_start
      [\<lparr>status = 1, eintr = False, revents0 = {}, revents1 = {POLLHUP},
        chunks = [], eof = False\<rparr>,
       \<lparr>status = 0, eintr = False, revents0 = {}, revents1 = {}, chunks = [], eof = False\<rparr>,
       \<lparr>status = - 1, eintr = True, revents0 = {}, revents1 = {}, chunks = [], eof = False\<rparr>]
     = Continue (cv_start\<lparr>stdin_fd := - 1\<rparr>) \<and>
   loop_iter False 128 (cv_line True strtof_sample) (cv_start\<lparr>stdin_fd := - 1\<rparr>)
      \<lparr>status = 1, eintr = False, revents0 = {}, revents1 = {POLLIN},
       chunks = [''0.5'' @ [CHR 0x0A]], eof = False\<rparr>
     \<in> {Continue (cv_start\<lparr>stdin_fd := - 1\<rparr>), Break, Fail} \<and>
   run_loop False 128 (cv_line True strtof_sample) (cv_start\<lparr>stdin_fd := - 1\<rparr>)
      ([\<lparr>status = 0, eintr = False, revents0 = {}, revents1 = {}, chunks = [], eof = False\<rparr>,
        \<lparr>status = - 1, eintr = True, revents0 = {}, revents1 = {}, chunks = [], eof = False\<rparr>] @
       [\<lparr>status = 1, eintr = False, revents0 = {POLLHUP}, revents1 = {}, chunks = [], eof = False\<rparr>])
     = Break"
proof -
  note t = shutdown_first_eof_keeps_running
    [where marker = False and cap = 128 and handle = "cv_line True strtof_sample"]
  let ?idle = "[\<lparr>status = 0, eintr = False, revents0 = {}, revents1 = {}, chunks = [], eof = False\<rparr>,
       \<lparr>status = - 1, eintr = True, revents0 = {}, revents1 = {}, chunks = [], eof = False\<rparr>]"
  have a: "run_loop False 128 (cv_line True strtof_sample) cv_start
      [\<lparr>status = 2, eintr = False, revents0 = {POLLHUP}, revents1 = {POLLIN},
        chunks = [''0.5'' @ [CHR 0x0A]], eof = False\<rparr>,
       \<lparr>status = 1, eintr = False, revents0 = {}, revents1 = {POLLIN},
        chunks = [''1.5'' @ [CHR 0x0A]], eof = False\<rparr>] = Break"
    using t [where ls = cv_start and
        wk = "\<lparr>status = 2, eintr = False, revents0 = {POLLHUP}, revents1 = {POLLIN},
               chunks = [''0.5'' @ [CHR 0x0A]], eof = False\<rparr>" and
        ws = "[\<lparr>status = 1, eintr = False, revents0 = {}, revents1 = {POLLIN},
        chunks = [''1.5'' @ [CHR 0x0A]], eof = False\<rparr>]", THEN conjunct1]
    by simp
  have r: "read_loop False 128 (cv_line True strtof_sample) (inner cv_start) (line_buf cv_start)
        [''0.5'' @ [CHR 0x0A]] =
      Inr (\<lparr>cell = \<lparr>port_cv = Some 7, value_cv = Fin (1 / 2)\<rparr>, stderr_cv = []\<rparr>, [])"
    by (simp add: cv_start_def cv_line_def handle_line_cv_def strtof_sample_def)
  have b: "loop_iter False 128 (cv_line True strtof_sample) cv_start
      \<lparr>status = 1, eintr = False, revents0 = {}, revents1 = {POLLIN},
       chunks = [''0.5'' @ [CHR 0x0A]], eof = True\<rparr> =
      Continue (cv_start\<lparr>inner := \<lparr>cell = \<lparr>port_cv = Some 7, value_cv = Fin (1 / 2)\<rparr>, stderr_cv = []\<rparr>,
                         line_buf := [], stdin_fd := - 1\<rparr>)"
    using r t [where ls = cv_start and
        wk = "\<lparr>status = 1, eintr = False, revents0 = {}, revents1 = {POLLIN},
               chunks = [''0.5'' @ [CHR 0x0A]], eof = True\<rparr>" and
        s' = "\<lparr>cell = \<lparr>port_cv = Some 7, value_cv = Fin (1 / 2)\<rparr>, stderr_cv = []\<rparr>" and lin' = "[]",
        THEN conjunct2, THEN conjunct1]
    by (simp add: cv_start_def)
  have e: "run_loop False 128 (cv_line True strtof_sample) (cv_start\<lparr>stdin_fd := - 1\<rparr>) ?idle
      = Continue (cv_start\<lparr>stdin_fd := - 1\<rparr>) \<and>
     run_loop False 128 (cv_line True strtof_sample) (cv_start\<lparr>stdin_fd := - 1\<rparr>)
      (?idle @ [\<lparr>status = 1, eintr = False, revents0 = {POLLHUP}, revents1 = {}, chunks = [], eof = False\<rparr>])
      = Break"
    using t [where ls = "cv_start\<lparr>stdin_fd := - 1\<rparr>" and ws = ?idle and
        wk = "\<lparr>status = 1, eintr = False, revents0 = {POLLHUP}, revents1 = {}, chunks = [], eof = False\<rparr>",
        THEN conjunct2, THEN conjunct2, THEN conjunct2, THEN conjunct2]
    by simp
  have c: "run_loop False 128 (cv_line True strtof_sample) cv_start
      (\<lparr>status = 1, eintr = False, revents0 = {}, revents1 = {POLLHUP},
        chunks = [], eof = False\<rparr> # ?idle)
     = Continue (cv_start\<lparr>stdin_fd := - 1\<rparr>)"
    using e t [where ls = cv_start and ws = ?idle and
        wk = "\<lparr>status = 1, eintr = False, revents0 = {}, revents1 = {POLLHUP},
        chunks = [], eof = False\<rparr>", THEN conjunct2, THEN conjunct2, THEN conjunct1]
    by (simp add: cv_start_def)
  have d: "loop_iter False 128 (cv_line True strtof_sample) (cv_start\<lparr>stdin_fd := - 1\<rparr>)
      \<lparr>status = 1, eintr = False, revents0 = {}, revents1 = {POLLIN},
       chunks = [''0.5'' @ [CHR 0x0A]], eof = False\<rparr>
     \<in> {Continue (cv_start\<lparr>stdin_fd := - 1\<rparr>), Break, Fail}"
    using t [where ls = "cv_start\<lparr>stdin_fd := - 1\<rparr>" and
        wk = "\<lparr>status = 1, eintr = False, revents0 = {}, revents1 = {POLLIN},
               chunks = [''0.5'' @ [CHR 0x0A]], eof = False\<rparr>",
        THEN conjunct2, THEN conjunct2, THEN conjunct2, THEN conjunct1]
    by simp
  from a b c d e show ?thesis by (intro conjI) simp_all
qed

text \<open>
  C9. As stated, the claim fails: \<open>handle_line\<close> calls \<open>free_excess\<close> before it looks at
  the line, so a line with a character that is no hex digit still moves \<open>malloc_head\<close>
  and frees the retired nodes with their links. From the reachable state
  \<open>retired_state\<close> the line \<open>zz\<close> is rejected, and afterwards \<open>malloc_head\<close> is at node
  1 instead of node 0 and node 0, which held the link to node 1, is gone.
\<close>

theorem invalid_hex_reclaims_counterexample:
  "reachable True retired_state \<and>
   handle_line True (Some (2, (\<lambda>i. 0))) retired_state ''zz'' =
     Inr ([InvalidHexDigit (CHR ''z'')],
          retired_state\<lparr>malloc_head := Some 1,
            heap := fmupd 2 \<lparr>next_n = None, length_n = 1, message = (\<lambda>i. 0)\<rparr>
                      (fmdrop_set (set [0]) (heap retired_state))\<rparr>) \<and>
   malloc_head retired_state = Some 0 \<and>
   next_n (the (fmlookup (heap retired_state) 0)) = Some 1 \<and>
   fmlookup (heap (retired_state\<lparr>malloc_head := Some 1,
            heap := fmupd 2 \<lparr>next_n = None, length_n = 1, message = (\<lambda>i. 0)\<rparr>
                      (fmdrop_set (set [0]) (heap retired_state))\<rparr>)) 0 = None"
proof -
  have f: "fill ''zz'' 0 (\<lambda>i. 0) = (Some (CHR ''z''), (\<lambda>i. 0))"
    by (simp add: hex_to_int_def)
  have fresh: "fmlookup (fmdrop_set (set [0]) (heap retired_state)) 2 = None"
    by (simp add: retired_state_def)
  have "handle_line True (Some (2, (\<lambda>i. 0))) retired_state ''zz'' =
     Inr ([InvalidHexDigit (CHR ''z'')],
          retired_state\<lparr>malloc_head := head retired_state,
            heap := fmupd 2 \<lparr>next_n = None, length_n = length ''zz'' div 2, message = (\<lambda>i. 0)\<rparr>
                      (fmdrop_set (set [0]) (heap retired_state))\<rparr>)"
    by (rule handle_line_invalid(1) [OF retired_inv _ fresh f]) simp
  moreover have "head retired_state = Some 1" by (simp add: retired_state_def)
  ultimately show ?thesis
    using retired_reachable [of True] by (simp add: retired_state_def)
qed

text \<open>
  C9, amended. When \<open>handle_line\<close> meets a character that is no hex digit (in a line of
  even length, the queue in order, \<open>malloc\<close> answering with a free address), it returns
  with the diagnostic and without calling \<open>push_back\<close>. The state it leaves is the one
  before the call with exactly these changes: \<open>malloc_head\<close> is set to \<open>head\<close>, the
  retired nodes between the two are freed, and the node for the rejected line is
  allocated, with no successor, holding the bytes filled in before the bad character.
  So \<open>head\<close>, \<open>tail\<close> and the port are as before, the nodes from \<open>head\<close> to the tail
  are all there with their links and contents as before, every other node is either one
  of the retired ones and freed or as it was, and the new node is none of the queue's.
\<close>

theorem invalid_hex_leaves_queue:
  assumes inv: "queue_inv s as bs"
    and fresh: "fmlookup (fmdrop_set (set as) (heap s)) a = None"
    and ev: "even (length lin)"
    and bad: "find (\<lambda>c. hex_to_int c = - 1) lin = Some c"
  shows "\<exists>s'. s' = s\<lparr>malloc_head := head s,
                      heap := fmupd a \<lparr>next_n = None, length_n = length lin div 2,
                                       message = snd (fill lin 0 junk)\<rparr>
                                (fmdrop_set (set as) (heap s))\<rparr> \<and>
     handle_line nd (Some (a, junk)) s lin = Inr ([InvalidHexDigit c], s') \<and>
     head s' = head s \<and> tail s' = tail s \<and> port s' = port s \<and> malloc_head s' = head s \<and>
     queue_inv s' [] bs \<and>
     (\<forall>b \<in> set bs. fmlookup (heap s') b = fmlookup (heap s) b) \<and>
     (\<forall>x. x \<noteq> a \<longrightarrow> fmlookup (heap s') x = (if x \<in> set as then None else fmlookup (heap s) x)) \<and>
     a \<notin> set bs"
proof -
  obtain b msg where f: "fill lin 0 junk = (b, msg)" by (cases "fill lin 0 junk")
  with bad fill_fst [of lin 0 junk] have f': "fill lin 0 junk = (Some c, msg)" by simp
  let ?s' = "s\<lparr>malloc_head := head s,
             heap := fmupd a \<lparr>next_n = None, length_n = length lin div 2, message = msg\<rparr>
                       (fmdrop_set (set as) (heap s))\<rparr>"
  note hl = handle_line_invalid(1) [OF inv ev fresh f', of nd]
  note inv' = handle_line_invalid(2) [OF inv ev fresh f']
  from inv have d: "distinct (as @ bs)" and p1: "path (heap s) (malloc_head s) as (head s)"
    by (simp_all add: queue_inv_def)
  from free_excess_inv(2) [OF inv] have "path (fmdrop_set (set as) (heap s)) (head s) bs None"
    by (simp add: queue_inv_def)
  with fresh have notin: "a \<notin> set bs" using path_allocated by fastforce
  have same: "\<forall>b \<in> set bs. fmlookup (heap ?s') b = fmlookup (heap s) b"
    using d notin by auto
  have other: "\<forall>x. x \<noteq> a \<longrightarrow> fmlookup (heap ?s') x = (if x \<in> set as then None else fmlookup (heap s) x)"
    by simp
  have eq: "?s' = s\<lparr>malloc_head := head s,
                      heap := fmupd a \<lparr>next_n = None, length_n = length lin div 2,
                                       message = snd (fill lin 0 junk)\<rparr>
                                (fmdrop_set (set as) (heap s))\<rparr>"
    using f' by simp
  have h: "head ?s' = head s" and t: "tail ?s' = tail s" and po: "port ?s' = port s"
    and mh: "malloc_head ?s' = head s" by simp_all
  show ?thesis
    by (rule exI [of _ ?s'])
      (rule conjI [OF eq conjI [OF hl conjI [OF h conjI [OF t conjI [OF po conjI [OF mh
         conjI [OF inv' conjI [OF same conjI [OF other notin]]]]]]]]])
qed

theorem invalid_hex_leaves_queue_witness:
  "queue_inv retired_state [0] [1] \<and>
   fmlookup (fmdrop_set (set [0]) (heap retired_state)) 2 = None \<and>
   even (length ''9g'') \<and>
   find (\<lambda>c. hex_to_int c = - 1) ''9g'' = Some (CHR ''g'') \<and>
   (\<exists>s'. s' = retired_state\<lparr>malloc_head := head retired_state,
                      heap := fmupd 2 \<lparr>next_n = None, length_n = length ''9g'' div 2,
                                       message = snd (fill ''9g'' 0 (\<lambda>i. 0))\<rparr>
                                (fmdrop_set (set [0]) (heap retired_state))\<rparr> \<and>
     handle_line True (Some (2, (\<lambda>i. 0))) retired_state ''9g'' = Inr ([InvalidHexDigit (CHR ''g'')], s') \<and>
     head s' = head retired_state \<and> tail s' = tail retired_state \<and> port s' = port retired_state \<and>
     malloc_head s' = head retired_state \<and>
     queue_inv s' [] [1] \<and>
     (\<forall>b \<in> set [1]. fmlookup (heap s') b = fmlookup (heap retired_state) b) \<and>
     (\<forall>x. x \<noteq> 2 \<longrightarrow> fmlookup (heap s') x = (if x \<in> set [0] then None else fmlookup (heap retired_state) x)) \<and>
     2 \<notin> set [1 :: addr])"
proof -
  have h1: "queue_inv retired_state [0] [1]"
    by (simp add: queue_inv_def retired_state_def)
  have h2: "fmlookup (fmdrop_set (set [0]) (heap retired_state)) 2 = None"
    by (simp add: retired_state_def)
  have h3: "even (length ''9g'')" by simp
  have h4: "find (\<lambda>c. hex_to_int c = - 1) ''9g'' = Some (CHR ''g'')"
    by (simp add: hex_to_int_def)
  show ?thesis
    by (rule conjI [OF h1 conjI [OF h2 conjI [OF h3 conjI [OF h4
          invalid_hex_leaves_queue [OF h1 h2 h3 h4]]]]])
qed




end
